theory Spec2Isabelle
  imports Main
begin

section \<open>JavaScript values used by the bot\<close>

text \<open>
  A JavaScript string is modelled by its UTF-8 encoding: a \<open>string\<close> whose characters are
  the bytes. ASCII text is written as it stands in the source; the delimiters of the codecs
  (\<open>:\<close>, \<open>|\<close>, \<open>%\<close>, \<open>-\<close>) are ASCII, and no byte of a multi-byte UTF-8 sequence is ASCII,
  so splitting and comparing on them works on bytes as it does on code units.

  The numbers of the codecs come from \<open>parseInt\<close>: they are doubles that hold an integer,
  or an infinity, or \<open>NaN\<close>. A finite one is modelled by the integer it holds; an integer
  \<open>i\<close> is a double when \<open>to_number i = Finite i\<close>.
\<close>

datatype number = Finite int | PlusInfinity | MinusInfinity | NaN

text \<open>The number of binary digits of a natural number.\<close>

fun bit_length :: "nat \<Rightarrow> nat" where
  "bit_length n = (if n = 0 then 0 else Suc (bit_length (n div 2)))"

declare bit_length.simps [simp del]

text \<open>
  The double nearest to a natural number, ties to the even significand of 53 bits;
  \<open>None\<close> from \<open>2^1024 - 2^970\<close> on, where the nearest value is the infinity.
\<close>

definition nearest_double :: "nat \<Rightarrow> nat option" where
  "nearest_double n =
     (if n < 2 ^ 53 then Some n
      else if 2 ^ 1024 - 2 ^ 970 \<le> n then None
      else (let e = bit_length n - 53; q = n div 2 ^ e; r = n mod 2 ^ e
            in if 2 ^ (e - 1) < r \<or> (r = 2 ^ (e - 1) \<and> odd q) then Some ((q + 1) * 2 ^ e)
               else Some (q * 2 ^ e)))"

text \<open>The Number value of a mathematical integer.\<close>

definition to_number :: "int \<Rightarrow> number" where
  "to_number i =
     (case nearest_double (nat \<bar>i\<bar>) of
        None \<Rightarrow> if i < 0 then MinusInfinity else PlusInfinity
      | Some m \<Rightarrow> Finite (if i < 0 then - int m else int m))"

definition digit_char :: "nat \<Rightarrow> char" where
  "digit_char d = ''0123456789'' ! d"

text \<open>The decimal digits of a natural number, most significant first.\<close>

fun nat_digits :: "nat \<Rightarrow> string" where
  "nat_digits n =
     (if n < 10 then [digit_char n] else nat_digits (n div 10) @ [digit_char (n mod 10)])"

declare nat_digits.simps [simp del]

text \<open>
  \<open>Number::toString\<close> writes the shortest decimal \<open>s \<times> 10^(n - k)\<close>, with \<open>k\<close> digits
  in \<open>s\<close>, that reads back as the number \<open>x\<close>, and among several the one nearest to \<open>x\<close>.
  For a double \<open>x\<close> that holds an integer the decimals of \<open>k\<close> digits to try are the
  multiples of \<open>10^(n - k)\<close> on both sides of \<open>x\<close>, with \<open>n\<close> the number of digits of
  \<open>x\<close> or one off; the search ends at the latest with all the digits of \<open>x\<close> itself.
\<close>

definition decimal_candidates :: "nat \<Rightarrow> nat \<Rightarrow> (nat \<times> nat) list" where
  "decimal_candidates x k =
     [(n, s).
        n \<leftarrow> [length (nat_digits x) - 1, length (nat_digits x), length (nat_digits x) + 1],
        k \<le> n,
        s \<leftarrow> [x div 10 ^ (n - k), x div 10 ^ (n - k) + 1],
        10 ^ (k - 1) \<le> s \<and> s < 10 ^ k \<and> nearest_double (s * 10 ^ (n - k)) = Some x]"

text \<open>Twice the distance of a candidate from \<open>x\<close>, plus one for an odd \<open>s\<close>.\<close>

definition candidate_key :: "nat \<Rightarrow> nat \<Rightarrow> nat \<times> nat \<Rightarrow> nat" where
  "candidate_key x k c =
     (case c of (n, s) \<Rightarrow>
        2 * (if x \<le> s * 10 ^ (n - k) then s * 10 ^ (n - k) - x else x - s * 10 ^ (n - k))
          + (if odd s then 1 else 0))"

text \<open>The triple \<open>(k, n, s)\<close> of the shortest decimal.\<close>

definition shortest_decimal :: "nat \<Rightarrow> nat \<times> nat \<times> nat" where
  "shortest_decimal x =
     (case List.find (\<lambda>k. decimal_candidates x k \<noteq> []) [1 ..< Suc (length (nat_digits x))] of
        None \<Rightarrow> (length (nat_digits x), length (nat_digits x), x)
      | Some k \<Rightarrow>
          (case arg_min_list (candidate_key x k) (decimal_candidates x k) of
             (n, s) \<Rightarrow> (k, n, s)))"

text \<open>
  Plain digits, filled with zeros, up to 21 digits; beyond that the first digit, the others
  after a point, and the exponent.
\<close>

definition decimal_to_string :: "nat \<times> nat \<times> nat \<Rightarrow> string" where
  "decimal_to_string d =
     (case d of (k, n, s) \<Rightarrow>
        if n \<le> 21 then nat_digits s @ replicate (n - k) (CHR ''0'')
        else take 1 (nat_digits s)
             @ (if k = 1 then [] else CHR ''.'' # drop 1 (nat_digits s))
             @ ''e+'' @ nat_digits (n - 1))"

text \<open>Zero is printed as \<open>0\<close>, every other magnitude by its shortest decimal.\<close>

definition magnitude_to_string :: "nat \<Rightarrow> string" where
  "magnitude_to_string x = (if x = 0 then ''0'' else decimal_to_string (shortest_decimal x))"

text \<open>\<open>`${n}`\<close>, \<open>String(n)\<close> and \<open>n.toString()\<close>.\<close>

fun number_to_string :: "number \<Rightarrow> string" where
  "number_to_string (Finite i) =
     (if i < 0 then CHR ''-'' # magnitude_to_string (nat (- i)) else magnitude_to_string (nat i))"
| "number_to_string PlusInfinity = ''Infinity''"
| "number_to_string MinusInfinity = ''-Infinity''"
| "number_to_string NaN = ''NaN''"

text \<open>
  The white space that \<open>parseInt\<close> skips (\<open>StrWhiteSpaceChar\<close>): TAB, LF, VT, FF, CR, SP,
  and, as UTF-8 sequences, U+00A0, U+1680, U+2000 to U+200A, U+2028, U+2029, U+202F, U+205F,
  U+3000 and U+FEFF.
\<close>

definition js_whitespace :: "string list" where
  "js_whitespace =
     [[CHR 0x09], [CHR 0x0A], [CHR 0x0B], [CHR 0x0C], [CHR 0x0D], [CHR 0x20],
      [CHR 0xC2, CHR 0xA0], [CHR 0xE1, CHR 0x9A, CHR 0x80],
      [CHR 0xE2, CHR 0x80, CHR 0x80], [CHR 0xE2, CHR 0x80, CHR 0x81],
      [CHR 0xE2, CHR 0x80, CHR 0x82], [CHR 0xE2, CHR 0x80, CHR 0x83],
      [CHR 0xE2, CHR 0x80, CHR 0x84], [CHR 0xE2, CHR 0x80, CHR 0x85],
      [CHR 0xE2, CHR 0x80, CHR 0x86], [CHR 0xE2, CHR 0x80, CHR 0x87],
      [CHR 0xE2, CHR 0x80, CHR 0x88], [CHR 0xE2, CHR 0x80, CHR 0x89],
      [CHR 0xE2, CHR 0x80, CHR 0x8A], [CHR 0xE2, CHR 0x80, CHR 0xA8],
      [CHR 0xE2, CHR 0x80, CHR 0xA9], [CHR 0xE2, CHR 0x80, CHR 0xAF],
      [CHR 0xE2, CHR 0x81, CHR 0x9F], [CHR 0xE3, CHR 0x80, CHR 0x80],
      [CHR 0xEF, CHR 0xBB, CHR 0xBF]]"

definition leading_space :: "string \<Rightarrow> string option" where
  "leading_space s = List.find (\<lambda>w. take (length w) s = w) js_whitespace"

function trim_start :: "string \<Rightarrow> string" where
  "trim_start s = (case leading_space s of None \<Rightarrow> s | Some w \<Rightarrow> trim_start (drop (length w) s))"
  by pat_completeness auto
termination
proof (relation "measure length")
  show "wf (measure length)" by simp
next
  fix s w :: string
  assume "leading_space s = Some w"
  then have w: "w \<in> set js_whitespace" and p: "take (length w) s = w"
    by (auto simp: leading_space_def find_Some_iff)
  from w have "w \<noteq> []" by (auto simp: js_whitespace_def)
  with p have "s \<noteq> []" by auto
  with \<open>w \<noteq> []\<close> show "(drop (length w) s, s) \<in> measure length" by simp
qed

declare trim_start.simps [simp del]

text \<open>The value of a character as a digit of the given radix (10 or 16).\<close>

definition digit_value :: "nat \<Rightarrow> char \<Rightarrow> nat option" where
  "digit_value radix c =
     (let n = (of_char c :: nat);
          v = (if 48 \<le> n \<and> n \<le> 57 then Some (n - 48)
               else if 97 \<le> n \<and> n \<le> 102 then Some (n - 87)
               else if 65 \<le> n \<and> n \<le> 70 then Some (n - 55)
               else None)
      in case v of None \<Rightarrow> None | Some d \<Rightarrow> if d < radix then Some d else None)"

text \<open>The longest prefix of digits, as values.\<close>

fun leading_digits :: "nat \<Rightarrow> string \<Rightarrow> nat list" where
  "leading_digits radix [] = []"
| "leading_digits radix (c # cs) =
     (case digit_value radix c of None \<Rightarrow> [] | Some d \<Rightarrow> d # leading_digits radix cs)"

definition digits_number :: "nat \<Rightarrow> nat list \<Rightarrow> nat" where
  "digits_number radix ds = foldl (\<lambda>a d. a * radix + d) 0 ds"

text \<open>
  \<open>parseInt(s)\<close> with no radix: skip white space, read a sign, read \<open>0x\<close> or \<open>0X\<close> as the
  mark of radix 16, then the longest run of digits; the integer they spell is rounded to a
  Number. Without a digit the result is \<open>NaN\<close>.
\<close>

definition parseInt :: "string \<Rightarrow> number" where
  "parseInt s =
     (let t = trim_start s;
          neg = (take 1 t = ''-'');
          u = (if take 1 t = ''-'' \<or> take 1 t = ''+'' then drop 1 t else t);
          hex = (take 2 u = ''0x'' \<or> take 2 u = ''0X'');
          radix = (if hex then 16 else 10);
          ds = leading_digits radix (if hex then drop 2 u else u)
      in if ds = [] then NaN
         else to_number (if neg then - int (digits_number radix ds) else int (digits_number radix ds)))"

text \<open>\<open>parseInt(x) || 0\<close>: \<open>NaN\<close> and \<open>0\<close> are falsy. An absent argument prints as \<open>undefined\<close>.\<close>

definition parseInt_or_0 :: "string option \<Rightarrow> number" where
  "parseInt_or_0 x =
     (case parseInt (case x of None \<Rightarrow> ''undefined'' | Some s \<Rightarrow> s) of
        NaN \<Rightarrow> Finite 0
      | n \<Rightarrow> n)"

text \<open>
  \<open>s.split(d)\<close> for a one-character separator. The result is never empty (the empty
  string gives one empty field), so the first branch of the \<open>case\<close> below is never taken.
\<close>

fun split :: "char \<Rightarrow> string \<Rightarrow> string list" where
  "split d [] = [[]]"
| "split d (c # cs) =
     (if c = d then [] # split d cs
      else (case split d cs of [] \<Rightarrow> [[c]] | field # fields \<Rightarrow> (c # field) # fields))"

text \<open>\<open>parts[i]\<close>: \<open>undefined\<close> (here \<open>None\<close>) beyond the end.\<close>

definition at_index :: "'a list \<Rightarrow> nat \<Rightarrow> 'a option" where
  "at_index xs i = (if i < length xs then Some (xs ! i) else None)"

section \<open>Search filters and the compact token\<close>

text \<open>
  \<open>filters\<close> is an object with the optional fields \<open>file_lang\<close>, \<open>year\<close> and \<open>quality\<close>;
  \<open>None\<close> stands for \<open>null\<close> and for \<open>undefined\<close>. A field is truthy when it holds a
  non-empty string.
\<close>

record filters =
  file_lang :: "string option"
  year :: "string option"
  quality :: "string option"

record search_state =
  page :: number
  filters :: filters

definition truthy :: "string option \<Rightarrow> bool" where
  "truthy v = (case v of None \<Rightarrow> False | Some s \<Rightarrow> s \<noteq> [])"

text \<open>\<open>v || '-'\<close>\<close>

definition or_dash :: "string option \<Rightarrow> string" where
  "or_dash v = (case v of None \<Rightarrow> ''-'' | Some s \<Rightarrow> if s = [] then ''-'' else s)"

definition serializeFilters :: "number \<Rightarrow> filters \<Rightarrow> string" where
  "serializeFilters p f =
     number_to_string p @ '':'' @ or_dash (file_lang f) @ '':'' @ or_dash (year f)
       @ '':'' @ or_dash (quality f)"

text \<open>\<open>parts[i] === '-' ? null : parts[i]\<close>\<close>

definition dash_to_null :: "string option \<Rightarrow> string option" where
  "dash_to_null v = (case v of None \<Rightarrow> None | Some s \<Rightarrow> if s = ''-'' then None else Some s)"

definition deserializeFilters :: "string \<Rightarrow> search_state" where
  "deserializeFilters data =
     (let parts = split (CHR '':'') data
      in \<lparr> page = parseInt_or_0 (at_index parts 0),
           filters = \<lparr> file_lang = dash_to_null (at_index parts 1),
                       year = dash_to_null (at_index parts 2),
                       quality = dash_to_null (at_index parts 3) \<rparr> \<rparr>)"

text \<open>
  The enumerated filter values: the keys of \<open>LANGUAGES\<close>, the list \<open>YEARS\<close> (built at start-up
  from the current year down to 2000) and the quality tags of the filter menu.
\<close>

definition LANGUAGES :: "(string \<times> string) list" where
  "LANGUAGES =
     [(''EN'', ''English''), (''HI'', ''Hindi''), (''TA'', ''Tamil''), (''TE'', ''Telugu''),
      (''ML'', ''Malayalam''), (''KN'', ''Kannada''), (''BN'', ''Bengali''),
      (''MR'', ''Marathi''), (''MU'', ''Multi Audio'')]"

definition YEARS :: "int \<Rightarrow> string list" where
  "YEARS current_year = map (\<lambda>y. number_to_string (Finite y)) (rev [2000 .. current_year])"

definition QUALITIES :: "string list" where
  "QUALITIES = [''4K'', ''1080p'', ''720p'', ''480p'', ''Cam'']"

definition enumerated :: "string list \<Rightarrow> string option \<Rightarrow> bool" where
  "enumerated vs v = (case v of None \<Rightarrow> True | Some s \<Rightarrow> s \<in> set vs)"

definition valid_filters :: "int \<Rightarrow> filters \<Rightarrow> bool" where
  "valid_filters current_year f \<longleftrightarrow>
     enumerated (map fst LANGUAGES) (file_lang f) \<and>
     enumerated (YEARS current_year) (year f) \<and>
     enumerated QUALITIES (quality f)"

text \<open>A Number that holds a non-negative integer.\<close>

definition non_negative_integer :: "number \<Rightarrow> bool" where
  "non_negative_integer x =
     (case x of Finite i \<Rightarrow> 0 \<le> i \<and> to_number i = Finite i | _ \<Rightarrow> False)"

definition valid_state :: "int \<Rightarrow> search_state \<Rightarrow> bool" where
  "valid_state current_year s \<longleftrightarrow>
     non_negative_integer (page s) \<and> valid_filters current_year (filters s)"

text \<open>
  A filter value that the placeholder encoding keeps apart: absent, or a non-empty text other
  than \<open>-\<close> that holds none of the given delimiters.
\<close>

definition plain_value :: "char set \<Rightarrow> string option \<Rightarrow> bool" where
  "plain_value ds v = (case v of None \<Rightarrow> True | Some s \<Rightarrow> s \<noteq> [] \<and> s \<noteq> ''-'' \<and> set s \<inter> ds = {})"

section \<open>Percent-encoding, UTF-8 and base64url\<close>

text \<open>
  \<open>encodeURIComponent\<close> keeps the unreserved characters and writes every other byte of the
  UTF-8 encoding as \<open>%XX\<close> in upper-case hexadecimal. It throws only on a lone surrogate,
  which has no UTF-8 encoding and so no counterpart here.
\<close>

definition uri_unreserved :: "char \<Rightarrow> bool" where
  "uri_unreserved c \<longleftrightarrow>
     c \<in> set ''ABCDEFGHIJKLMNOPQRSTUVWXYZabcdefghijklmnopqrstuvwxyz0123456789-_.!~*()''
       \<or> c = CHR 0x27"

definition hex_upper :: "nat \<Rightarrow> char" where
  "hex_upper d = (if d < 10 then char_of (48 + d) else char_of (55 + d))"

definition percent :: "char \<Rightarrow> string" where
  "percent c = [CHR ''%'', hex_upper (of_char c div 16), hex_upper (of_char c mod 16)]"

definition encodeURIComponent :: "string \<Rightarrow> string" where
  "encodeURIComponent s = concat (map (\<lambda>c. if uri_unreserved c then [c] else percent c) s)"

text \<open>Replacing every \<open>%XX\<close> by its byte; \<open>None\<close> when a \<open>%\<close> is not followed by two hex digits.\<close>

fun unescape :: "string \<Rightarrow> string option" where
  "unescape [] = Some []"
| "unescape (c # cs) =
     (if c = CHR ''%'' then
        (case cs of
           h # l # rest \<Rightarrow>
             (case (digit_value 16 h, digit_value 16 l) of
                (Some a, Some b) \<Rightarrow> map_option ((#) (char_of (a * 16 + b))) (unescape rest)
              | _ \<Rightarrow> None)
         | _ \<Rightarrow> None)
      else map_option ((#) c) (unescape cs))"

text \<open>
  The length of the first UTF-8 sequence of a non-empty byte string and whether it is
  well formed (Unicode, table 3-7). For an ill-formed start the length is that of its
  maximal subpart, which a decoder replaces by one U+FFFD.
\<close>

definition continuation :: "char \<Rightarrow> bool" where
  "continuation c \<longleftrightarrow> 0x80 \<le> (of_char c :: nat) \<and> (of_char c :: nat) \<le> 0xBF"

definition between :: "nat \<Rightarrow> nat \<Rightarrow> char \<Rightarrow> bool" where
  "between lo hi c \<longleftrightarrow> lo \<le> of_char c \<and> (of_char c :: nat) \<le> hi"

text \<open>The bounds of the second byte after the lead byte \<open>a\<close>, and the length the lead announces.\<close>

definition lead :: "char \<Rightarrow> (nat \<times> nat \<times> nat) option" where
  "lead a =
     (let x = (of_char a :: nat) in
      if 0xC2 \<le> x \<and> x \<le> 0xDF then Some (2, 0x80, 0xBF)
      else if x = 0xE0 then Some (3, 0xA0, 0xBF)
      else if x = 0xED then Some (3, 0x80, 0x9F)
      else if 0xE1 \<le> x \<and> x \<le> 0xEF then Some (3, 0x80, 0xBF)
      else if x = 0xF0 then Some (4, 0x90, 0xBF)
      else if x = 0xF4 then Some (4, 0x80, 0x8F)
      else if 0xF1 \<le> x \<and> x \<le> 0xF3 then Some (4, 0x80, 0xBF)
      else None)"

definition first_sequence :: "string \<Rightarrow> nat \<times> bool" where
  "first_sequence s =
     (case s of
        [] \<Rightarrow> (0, True)
      | a # r \<Rightarrow>
          if (of_char a :: nat) < 0x80 then (1, True)
          else (case lead a of
                  None \<Rightarrow> (1, False)
                | Some (n, lo, hi) \<Rightarrow>
                    (case r of
                       [] \<Rightarrow> (1, False)
                     | b # r2 \<Rightarrow>
                         if \<not> between lo hi b then (1, False)
                         else if n = 2 then (2, True)
                         else (case r2 of
                                 [] \<Rightarrow> (2, False)
                               | c # r3 \<Rightarrow>
                                   if \<not> continuation c then (2, False)
                                   else if n = 3 then (3, True)
                                   else (case r3 of
                                           [] \<Rightarrow> (3, False)
                                         | d # _ \<Rightarrow>
                                             if continuation d then (4, True) else (3, False))))))"

function utf8_valid :: "string \<Rightarrow> bool" where
  "utf8_valid s =
     (if s = [] then True
      else snd (first_sequence s) \<and> utf8_valid (drop (fst (first_sequence s)) s))"
  by pat_completeness auto
termination
  by (relation "measure length")
    (auto simp: first_sequence_def split: list.splits option.splits)

declare utf8_valid.simps [simp del]

text \<open>
  \<open>buf.toString('utf8')\<close>: well-formed sequences are kept, every maximal ill-formed
  subpart becomes U+FFFD (bytes EF BF BD).
\<close>

function utf8_to_string :: "string \<Rightarrow> string" where
  "utf8_to_string s =
     (if s = [] then []
      else (if snd (first_sequence s) then take (fst (first_sequence s)) s
            else [CHR 0xEF, CHR 0xBF, CHR 0xBD])
           @ utf8_to_string (drop (fst (first_sequence s)) s))"
  by pat_completeness auto
termination
  by (relation "measure length")
    (auto simp: first_sequence_def split: list.splits option.splits)

declare utf8_to_string.simps [simp del]

text \<open>\<open>decodeURIComponent\<close>: \<open>None\<close> is the \<open>URIError\<close> it throws.\<close>

definition decodeURIComponent :: "string \<Rightarrow> string option" where
  "decodeURIComponent s =
     (case unescape s of None \<Rightarrow> None | Some b \<Rightarrow> if utf8_valid b then Some b else None)"

text \<open>
  \<open>Buffer.from(s).toString('base64url')\<close>: \<open>Buffer.from(s)\<close> is the UTF-8 encoding of \<open>s\<close>,
  here \<open>s\<close> itself; base64url uses \<open>-\<close> and \<open>_\<close> and writes no padding.
\<close>

definition base64url_char :: "nat \<Rightarrow> char" where
  "base64url_char n =
     (if n < 26 then char_of (65 + n)
      else if n < 52 then char_of (71 + n)
      else if n < 62 then char_of (n - 4)
      else if n = 62 then CHR ''-'' else CHR ''_'')"

fun base64url_encode :: "string \<Rightarrow> string" where
  "base64url_encode (a # b # c # rest) =
     (let x = (of_char a :: nat); y = (of_char b :: nat); z = (of_char c :: nat)
      in [base64url_char (x div 4), base64url_char (x mod 4 * 16 + y div 16),
          base64url_char (y mod 16 * 4 + z div 64), base64url_char (z mod 64)])
     @ base64url_encode rest"
| "base64url_encode [a, b] =
     (let x = (of_char a :: nat); y = (of_char b :: nat)
      in [base64url_char (x div 4), base64url_char (x mod 4 * 16 + y div 16),
          base64url_char (y mod 16 * 4)])"
| "base64url_encode [a] =
     (let x = (of_char a :: nat) in [base64url_char (x div 4), base64url_char (x mod 4 * 16)])"
| "base64url_encode [] = []"

text \<open>
  \<open>Buffer.from(payload, 'base64url')\<close> reads both the base64 and the base64url alphabet,
  skips every other character and stops at the first \<open>=\<close>.
\<close>

definition base64_value :: "char \<Rightarrow> nat option" where
  "base64_value c =
     (let n = (of_char c :: nat) in
      if 65 \<le> n \<and> n \<le> 90 then Some (n - 65)
      else if 97 \<le> n \<and> n \<le> 122 then Some (n - 71)
      else if 48 \<le> n \<and> n \<le> 57 then Some (n + 4)
      else if c = CHR ''-'' \<or> c = CHR ''+'' then Some 62
      else if c = CHR ''_'' \<or> c = CHR ''/'' then Some 63
      else None)"

fun sextets_bytes :: "nat list \<Rightarrow> string" where
  "sextets_bytes (a # b # c # d # rest) =
     [char_of (a * 4 + b div 16), char_of (b mod 16 * 16 + c div 4), char_of (c mod 4 * 64 + d)]
     @ sextets_bytes rest"
| "sextets_bytes [a, b, c] = [char_of (a * 4 + b div 16), char_of (b mod 16 * 16 + c div 4)]"
| "sextets_bytes [a, b] = [char_of (a * 4 + b div 16)]"
| "sextets_bytes _ = []"

definition base64url_decode :: "string \<Rightarrow> string" where
  "base64url_decode p =
     sextets_bytes
       (map (\<lambda>c. the (base64_value c))
          (filter (\<lambda>c. base64_value c \<noteq> None) (takeWhile (\<lambda>c. c \<noteq> CHR ''='') p)))"

section \<open>The share link of a result page\<close>

text \<open>
  The action \<open>s:<state>\<close>: the state comes from \<open>deserializeFilters\<close>, the query from
  \<open>extractQuery\<close> (\<open>None\<close> when it finds none). No link is made without a query.
\<close>

definition share_payload :: "string \<Rightarrow> search_state \<Rightarrow> string" where
  "share_payload query st =
     base64url_encode
       (encodeURIComponent query @ ''|'' @ number_to_string (page st) @ ''|''
          @ or_dash (file_lang (filters st)) @ ''|'' @ or_dash (year (filters st)) @ ''|''
          @ or_dash (quality (filters st)))"

definition share_action :: "string option \<Rightarrow> search_state \<Rightarrow> string option" where
  "share_action query st =
     (case query of
        None \<Rightarrow> None
      | Some q \<Rightarrow> if q = [] then None else Some (share_payload q st))"

text \<open>
  The head of \<open>handleStatelessBatch\<close>: what it reads from the payload. A \<open>URIError\<close> lands in
  its \<open>catch\<close>, which answers that the link might be corrupted.
\<close>

datatype decode_error = URIError

definition all_some :: "'a option list \<Rightarrow> 'a list option" where
  "all_some xs = (if None \<in> set xs then None else Some (map the xs))"

definition stateless_batch_decode :: "string \<Rightarrow> decode_error + (string option \<times> search_state)" where
  "stateless_batch_decode payload =
     (case all_some
             (map decodeURIComponent
                (split (CHR ''|'') (utf8_to_string (base64url_decode payload)))) of
        None \<Rightarrow> Inl URIError
      | Some parts \<Rightarrow>
          Inr (at_index parts 0,
               \<lparr> page = parseInt_or_0 (at_index parts 1),
                 filters = \<lparr> file_lang = dash_to_null (at_index parts 2),
                             year = dash_to_null (at_index parts 3),
                             quality = dash_to_null (at_index parts 4) \<rparr> \<rparr>))"

text \<open>Texts of ASCII characters only.\<close>

definition ascii :: "string \<Rightarrow> bool" where
  "ascii s \<longleftrightarrow> (\<forall>c \<in> set s. (of_char c :: nat) < 128)"

text \<open>
  The bytes that would disturb a field of the share link: the delimiter, the escape
  character and everything beyond ASCII.
\<close>

definition link_special :: "char set" where
  "link_special = {c. c = CHR ''|'' \<or> c = CHR ''%'' \<or> 128 \<le> (of_char c :: nat)}"

section \<open>The query and filter composer\<close>

definition bslash :: char where
  "bslash = CHR 0x5C"

text \<open>
  \<open>escapeRegex\<close>: \<open>string.replace(/[.*+?^${}()|[\]\\]/g, '\\$&')\<close> puts a backslash before
  each of the fourteen characters of the class.
\<close>

definition regex_special :: "char \<Rightarrow> bool" where
  "regex_special c \<longleftrightarrow> c \<in> set ''.*+?^${}()|[]'' \<or> c = bslash"

definition escapeRegex :: "string \<Rightarrow> string" where
  "escapeRegex s = concat (map (\<lambda>c. if regex_special c then [bslash, c] else [c]) s)"

definition MULTI_KEYWORDS :: "string list" where
  "MULTI_KEYWORDS =
     [''multi'', ''dual'', ''dual audio'', ''multi audio'', ''audios'', ''triple'', ''eng-hin'',
      ''hin-eng'']"

text \<open>\<open>xs.join(sep)\<close>\<close>

fun join :: "string \<Rightarrow> string list \<Rightarrow> string" where
  "join sep [] = []"
| "join sep [x] = x"
| "join sep (x # y # ys) = x @ sep @ join sep (y # ys)"

text \<open>
  \<open>LANGUAGES[code]\<close> is a property read on an object literal: an own key gives its name, a
  name inherited from \<open>Object.prototype\<close> gives a function or an object, which
  \<open>escapeRegex\<close> cannot take (\<open>string.replace is not a function\<close>), any other key gives
  \<open>undefined\<close>.
\<close>

datatype property = Own string | Inherited | Undefined

definition object_prototype_names :: "string list" where
  "object_prototype_names =
     [''constructor'', ''__defineGetter__'', ''__defineSetter__'', ''hasOwnProperty'',
      ''__lookupGetter__'', ''__lookupSetter__'', ''isPrototypeOf'', ''propertyIsEnumerable'',
      ''toString'', ''valueOf'', ''__proto__'', ''toLocaleString'']"

definition languages_lookup :: "string \<Rightarrow> property" where
  "languages_lookup code =
     (case map_of LANGUAGES code of
        Some name \<Rightarrow> Own name
      | None \<Rightarrow> if code \<in> set object_prototype_names then Inherited else Undefined)"

text \<open>
  What can be thrown inside the \<open>try\<close> of \<open>searchFiles\<close>: a failure of the store, a
  \<open>SyntaxError\<close> of \<open>new RegExp\<close>, a \<open>TypeError\<close>.
\<close>

datatype failure = StoreError | SyntaxError | TypeError

text \<open>The two copies of \<open>searchFiles\<close>: \<open>src/scrapper/scraper.js\<close> and \<open>src/index.js\<close>.\<close>

datatype variant = Scraper | Index

text \<open>
  The collaborators of the search. The catalog is \<open>filesCollection\<close>, listed newest first as
  \<open>sort({ _id: -1 })\<close> returns it; each of the three store calls may fail. The regular
  expression engine (whether \<open>new RegExp(p, 'i')\<close> accepts a pattern, whether a pattern
  matches a name), Fuse's ranked search over \<open>file_name\<close> with threshold 0.4,
  \<open>toLowerCase\<close> and the clock are taken as given.
\<close>

record file_doc =
  file_id :: string
  file_name :: string
  file_size :: nat
  file_type :: string

record env =
  collection :: "file_doc list"
  page_read_fails :: bool
  recent_read_fails :: bool
  trending_write_fails :: bool
  regexp_compiles :: "string \<Rightarrow> bool"
  regex_test :: "string \<Rightarrow> string \<Rightarrow> bool"
  fuse_search :: "file_doc list \<Rightarrow> string \<Rightarrow> file_doc list"
  toLowerCase :: "string \<Rightarrow> string"
  now :: nat

definition new_RegExp :: "env \<Rightarrow> string \<Rightarrow> failure + string" where
  "new_RegExp e p = (if regexp_compiles e p then Inr p else Inl SyntaxError)"

text \<open>The value of a truthy field, as a list of at most one element.\<close>

definition present :: "string option \<Rightarrow> string list" where
  "present v = (case v of None \<Rightarrow> [] | Some s \<Rightarrow> if s = [] then [] else [s])"

definition lang_condition :: "variant \<Rightarrow> env \<Rightarrow> string \<Rightarrow> failure + string" where
  "lang_condition v e code =
     (case v of
        Index \<Rightarrow> new_RegExp e (escapeRegex code)
      | Scraper \<Rightarrow>
          if code = ''MU'' then new_RegExp e (join ''|'' MULTI_KEYWORDS)
          else (case languages_lookup code of
                  Own name \<Rightarrow>
                    if name = [] then new_RegExp e (escapeRegex code)
                    else new_RegExp e
                      (escapeRegex name @ ''|'' @ [bslash, CHR ''b''] @ escapeRegex code
                         @ [bslash, CHR ''b''])
                | Inherited \<Rightarrow> Inl TypeError
                | Undefined \<Rightarrow> new_RegExp e (escapeRegex code)))"

text \<open>The year is put into the pattern as it is.\<close>

definition year_pattern :: "variant \<Rightarrow> string \<Rightarrow> string" where
  "year_pattern v y =
     (case v of Index \<Rightarrow> y | Scraper \<Rightarrow> [bslash, CHR ''b''] @ y @ [bslash, CHR ''b''])"

text \<open>Running the steps in order; the first exception ends the run.\<close>

fun in_order :: "('e + 'a) list \<Rightarrow> 'e + 'a list" where
  "in_order [] = Inr []"
| "in_order (x # xs) =
     (case x of
        Inl err \<Rightarrow> Inl err
      | Inr a \<Rightarrow> (case in_order xs of Inl err \<Rightarrow> Inl err | Inr as \<Rightarrow> Inr (a # as)))"

text \<open>
  The patterns of \<open>conditions\<close>, each on \<open>file_name\<close> with the flag \<open>i\<close>. The query
  \<open>searchQuery\<close> is \<open>{}\<close>, the one condition or \<open>$and\<close> of them: a record matches when
  all patterns do.
\<close>

definition build_conditions :: "variant \<Rightarrow> env \<Rightarrow> string \<Rightarrow> filters \<Rightarrow> failure + string list" where
  "build_conditions v e query f =
     in_order
       (map (\<lambda>q. new_RegExp e (escapeRegex q)) (present (Some query))
        @ map (lang_condition v e) (present (file_lang f))
        @ map (\<lambda>y. new_RegExp e (year_pattern v y)) (present (year f))
        @ map (\<lambda>q. new_RegExp e (escapeRegex q)) (present (quality f)))"

section \<open>The search executor\<close>

definition RESULTS_PER_PAGE :: nat where
  "RESULTS_PER_PAGE = 10"

definition matches :: "env \<Rightarrow> string list \<Rightarrow> file_doc \<Rightarrow> bool" where
  "matches e conds d = list_all (\<lambda>p. regex_test e p (file_name d)) conds"

text \<open>
  \<open>filesCollection.find(q).sort({ _id: -1 }).skip(n).limit(k).toArray()\<close>. The store
  refuses a negative skip.
\<close>

definition find_page :: "env \<Rightarrow> string list \<Rightarrow> int \<Rightarrow> nat \<Rightarrow> failure + file_doc list" where
  "find_page e conds skip limit =
     (if page_read_fails e \<or> skip < 0 then Inl StoreError
      else Inr (take limit (drop (nat skip) (filter (matches e conds) (collection e)))))"

text \<open>\<open>filesCollection.find({}).sort({ _id: -1 }).limit(k).toArray()\<close>\<close>

definition find_recent :: "env \<Rightarrow> nat \<Rightarrow> failure + file_doc list" where
  "find_recent e limit =
     (if recent_read_fails e then Inl StoreError else Inr (take limit (collection e)))"

text \<open>
  \<open>s.length\<close> counts UTF-16 code units: one for each sequence of one to three bytes, two for
  a sequence of four bytes.
\<close>

definition js_length :: "string \<Rightarrow> nat" where
  "js_length s =
     length (filter (\<lambda>c. (of_char c :: nat) < 0x80 \<or> 0xC0 \<le> (of_char c :: nat)) s)
       + length (filter (\<lambda>c. 0xF0 \<le> (of_char c :: nat)) s)"

text \<open>The calls that a run makes to its collaborators, in order.\<close>

datatype call =
    FindPage "string list" int nat
  | FindRecent nat
  | FuseSearch "file_doc list" string
  | UpdateTrending string

text \<open>
  The trending collection: for each query key its \<open>count\<close> and \<open>last_searched\<close>.
  \<open>trackSearch\<close> upserts with \<open>$inc: { count: 1 }\<close> and \<open>$set: { last_searched: new Date() }\<close>;
  it catches a failure of the update itself.
\<close>

type_synonym trending = "string \<Rightarrow> (nat \<times> nat) option"

definition upsert_increment :: "trending \<Rightarrow> string \<Rightarrow> nat \<Rightarrow> trending" where
  "upsert_increment t k time =
     t(k \<mapsto> (case t k of None \<Rightarrow> (1, time) | Some (n, _) \<Rightarrow> (n + 1, time)))"

definition trackSearch :: "env \<Rightarrow> trending \<Rightarrow> string \<Rightarrow> trending \<times> call list" where
  "trackSearch e t query =
     (if query = [] \<or> js_length query < 3 then (t, [])
      else if trending_write_fails e then (t, [UpdateTrending (toLowerCase e query)])
      else (upsert_increment t (toLowerCase e query) (now e),
            [UpdateTrending (toLowerCase e query)]))"

record search_result =
  files :: "file_doc list"
  hasNext :: bool
  hasPrev :: bool
  currentPage :: int
  isFuzzy :: bool

record search_run =
  result :: search_result
  trending_after :: trending
  calls :: "call list"

text \<open>The \<open>catch\<close> of \<open>searchFiles\<close>: the error is logged and the empty result returned.\<close>

definition caught :: "trending \<Rightarrow> call list \<Rightarrow> search_run" where
  "caught t cs =
     \<lparr> result = \<lparr> files = [], hasNext = False, hasPrev = False, currentPage = 0,
                   isFuzzy = False \<rparr>,
       trending_after = t, calls = cs \<rparr>"

definition searchFiles ::
  "variant \<Rightarrow> env \<Rightarrow> trending \<Rightarrow> string \<Rightarrow> int \<Rightarrow> filters \<Rightarrow> search_run" where
  "searchFiles v e t query pg f =
     (let skip = pg * int RESULTS_PER_PAGE in
      case build_conditions v e query f of
        Inl _ \<Rightarrow> caught t []
      | Inr conds \<Rightarrow>
          (case find_page e conds skip (RESULTS_PER_PAGE + 1) of
             Inl _ \<Rightarrow> caught t [FindPage conds skip (RESULTS_PER_PAGE + 1)]
           | Inr results \<Rightarrow>
               (let hasMore = (length results > RESULTS_PER_PAGE);
                    fs = (if hasMore then take RESULTS_PER_PAGE results else results)
                in
                if fs = [] \<and> query \<noteq> [] \<and> \<not> truthy (file_lang f) \<and> \<not> truthy (year f) then
                  (case find_recent e 1000 of
                     Inl _ \<Rightarrow>
                       caught t [FindPage conds skip (RESULTS_PER_PAGE + 1), FindRecent 1000]
                   | Inr allFiles \<Rightarrow>
                       (let fuzzyResults = fuse_search e allFiles query in
                        \<lparr> result =
                            \<lparr> files = take RESULTS_PER_PAGE (drop (nat skip) fuzzyResults),
                              hasNext = (int (length fuzzyResults) > skip + int RESULTS_PER_PAGE),
                              hasPrev = (pg > 0), currentPage = pg, isFuzzy = True \<rparr>,
                          trending_after = t,
                          calls = [FindPage conds skip (RESULTS_PER_PAGE + 1), FindRecent 1000,
                                   FuseSearch allFiles query] \<rparr>))
                else
                  (let tracked =
                         (if query \<noteq> [] \<and> pg = 0 \<and> \<not> truthy (file_lang f) \<and> \<not> truthy (year f)
                             \<and> \<not> truthy (quality f)
                          then trackSearch e t query else (t, []))
                   in
                   \<lparr> result =
                       \<lparr> files = fs, hasNext = hasMore, hasPrev = (pg > 0), currentPage = pg,
                         isFuzzy = False \<rparr>,
                     trending_after = fst tracked,
                     calls = FindPage conds skip (RESULTS_PER_PAGE + 1) # snd tracked \<rparr>))))"

text \<open>
  Reading a pattern as the engine does, as far as it concerns escaping: a syntax character
  standing alone belongs to the pattern language, a backslash followed by a syntax character
  is that character itself, a backslash followed by anything else is an escape such as
  \<open>\b\<close>, and every other character is itself.
\<close>

datatype atom = Literal char | Operator char | Escape char

definition syntax_character :: "char \<Rightarrow> bool" where
  "syntax_character c \<longleftrightarrow> c \<in> set ''^$.*+?()[]{}|'' \<or> c = bslash"

fun pattern_atoms :: "string \<Rightarrow> atom list" where
  "pattern_atoms [] = []"
| "pattern_atoms [c] = [if syntax_character c then Operator c else Literal c]"
| "pattern_atoms (c # d # r) =
     (if c = bslash then (if syntax_character d then Literal d else Escape d) # pattern_atoms r
      else (if syntax_character c then Operator c else Literal c) # pattern_atoms (d # r))"

text \<open>The page of exact matches that \<open>searchFiles\<close> trims to: \<open>files\<close> before the fallback.\<close>

definition exact_files :: "variant \<Rightarrow> env \<Rightarrow> string \<Rightarrow> int \<Rightarrow> filters \<Rightarrow> failure + file_doc list" where
  "exact_files v e query pg f =
     (case build_conditions v e query f of
        Inl err \<Rightarrow> Inl err
      | Inr conds \<Rightarrow>
          (case find_page e conds (pg * int RESULTS_PER_PAGE) (RESULTS_PER_PAGE + 1) of
             Inl err \<Rightarrow> Inl err
           | Inr results \<Rightarrow> Inr (take RESULTS_PER_PAGE results)))"

text \<open>The exact search was served and found at least one record.\<close>

definition found :: "variant \<Rightarrow> env \<Rightarrow> string \<Rightarrow> int \<Rightarrow> filters \<Rightarrow> bool" where
  "found v e query pg f =
     (case exact_files v e query pg f of Inl _ \<Rightarrow> False | Inr fs \<Rightarrow> fs \<noteq> [])"

fun is_fuse_search :: "call \<Rightarrow> bool" where
  "is_fuse_search (FuseSearch _ _) = True"
| "is_fuse_search _ = False"

fun is_update_trending :: "call \<Rightarrow> bool" where
  "is_update_trending (UpdateTrending _) = True"
| "is_update_trending _ = False"

definition count_of :: "trending \<Rightarrow> string \<Rightarrow> nat" where
  "count_of t k = (case t k of None \<Rightarrow> 0 | Some (n, _) \<Rightarrow> n)"

definition no_result :: search_result where
  "no_result = \<lparr> files = [], hasNext = False, hasPrev = False, currentPage = 0, isFuzzy = False \<rparr>"

section \<open>A small catalog for the examples\<close>

text \<open>One record, a pattern engine that looks for the pattern's text in the name, a
  matcher that ranks every record it is given.\<close>

fun occurs_in :: "string \<Rightarrow> string \<Rightarrow> bool" where
  "occurs_in p [] = (p = [])"
| "occurs_in p (c # cs) = (take (length p) (c # cs) = p \<or> occurs_in p cs)"

definition example_env :: env where
  "example_env =
     \<lparr> collection = [\<lparr> file_id = ''f1'', file_name = ''inception 2010 720p'', file_size = 700,
                        file_type = ''video'' \<rparr>],
       page_read_fails = False, recent_read_fails = False, trending_write_fails = False,
       regexp_compiles = (\<lambda>p. True), regex_test = occurs_in,
       fuse_search = (\<lambda>docs q. docs), toLowerCase = (\<lambda>s. s), now = 1700000000 \<rparr>"

definition no_filters :: filters where
  "no_filters = \<lparr> file_lang = None, year = None, quality = None \<rparr>"

section \<open>The range link of the dump channel\<close>

text \<open>
  \<open>parsePostUrl\<close>: one trailing \<open>/\<close> is dropped, the last segment is the message id, the
  segment before it names the chat, and \<open>c\<close> before that marks a private channel. \<open>None\<close> is
  \<open>null\<close>: no url, no number, or the \<open>TypeError\<close> of \<open>lastPart.startsWith\<close> on a url of one
  segment, which the \<open>catch\<close> turns into \<open>null\<close>.
\<close>

definition last_opt :: "'a list \<Rightarrow> 'a option" where
  "last_opt xs = (if xs = [] then None else Some (last xs))"

definition parsePostUrl :: "string \<Rightarrow> (string \<times> number) option" where
  "parsePostUrl url =
     (if url = [] then None
      else
        (let cleanUrl = (if last url = CHR ''/'' then butlast url else url);
             parts = split (CHR ''/'') cleanUrl
         in case parseInt (last parts) of
              NaN \<Rightarrow> None
            | messageId \<Rightarrow>
                (let indicator = last_opt (butlast (butlast parts))
                 in case last_opt (butlast parts) of
                      None \<Rightarrow> None
                    | Some lastPart \<Rightarrow>
                        if indicator = Some ''c'' then Some (''-100'' @ lastPart, messageId)
                        else if take 1 lastPart = ''@'' then Some (lastPart, messageId)
                        else Some (''@'' @ lastPart, messageId))))"

text \<open>The record that the link carries; the source names its fields \<open>c\<close>, \<open>s\<close> and \<open>e\<close>.\<close>

record range_link =
  link_chat :: string
  link_start :: number
  link_end :: number

text \<open>
  \<open>JSON.stringify\<close> of a string: quotes, the two-character escapes, \<open>\u00xx\<close> for the other
  control characters.
\<close>

definition hex_lower :: "nat \<Rightarrow> char" where
  "hex_lower d = (if d < 10 then char_of (48 + d) else char_of (87 + d))"

definition json_char :: "char \<Rightarrow> string" where
  "json_char ch =
     (let n = (of_char ch :: nat) in
      if ch = CHR 0x22 then [CHR 0x5C, CHR 0x22]
      else if ch = CHR 0x5C then [CHR 0x5C, CHR 0x5C]
      else if n = 8 then [CHR 0x5C, CHR ''b'']
      else if n = 9 then [CHR 0x5C, CHR ''t'']
      else if n = 10 then [CHR 0x5C, CHR ''n'']
      else if n = 12 then [CHR 0x5C, CHR ''f'']
      else if n = 13 then [CHR 0x5C, CHR ''r'']
      else if n < 32 then [CHR 0x5C, CHR ''u'', CHR ''0'', CHR ''0'', hex_lower (n div 16),
                           hex_lower (n mod 16)]
      else [ch])"

definition json_string :: "string \<Rightarrow> string" where
  "json_string x = [CHR 0x22] @ concat (map json_char x) @ [CHR 0x22]"

text \<open>\<open>JSON.stringify\<close> of a Number: a finite one as \<open>toString\<close> prints it, any other as \<open>null\<close>.\<close>

definition json_number :: "number \<Rightarrow> string" where
  "json_number x = (case x of Finite i \<Rightarrow> number_to_string (Finite i) | _ \<Rightarrow> ''null'')"

text \<open>\<open>JSON.stringify({ c, s, e })\<close> and \<open>Buffer.from(data).toString('base64url')\<close>\<close>

definition link_data :: "range_link \<Rightarrow> string" where
  "link_data d =
     ''{'' @ json_string ''c'' @ '':'' @ json_string (link_chat d) @ '','' @ json_string ''s''
       @ '':'' @ json_number (link_start d) @ '','' @ json_string ''e'' @ '':''
       @ json_number (link_end d) @ ''}''"

definition link_payload :: "range_link \<Rightarrow> string" where
  "link_payload d = base64url_encode (link_data d)"

text \<open>
  The operations of the command on Numbers: \<open><\<close> and \<open>>\<close> are false as soon as one side is
  \<open>NaN\<close>, \<open>Math.min\<close> and \<open>Math.max\<close> give \<open>NaN\<close> then, and \<open>-\<close> rounds the difference of two finite
  numbers, while an infinity minus itself is \<open>NaN\<close>.
\<close>

definition number_less :: "number \<Rightarrow> number \<Rightarrow> bool" where
  "number_less a b =
     (case (a, b) of
        (Finite x, Finite y) \<Rightarrow> x < y
      | (Finite _, PlusInfinity) \<Rightarrow> True
      | (MinusInfinity, Finite _) \<Rightarrow> True
      | (MinusInfinity, PlusInfinity) \<Rightarrow> True
      | _ \<Rightarrow> False)"

definition Math_min :: "number \<Rightarrow> number \<Rightarrow> number" where
  "Math_min a b = (if a = NaN \<or> b = NaN then NaN else if number_less b a then b else a)"

definition Math_max :: "number \<Rightarrow> number \<Rightarrow> number" where
  "Math_max a b = (if a = NaN \<or> b = NaN then NaN else if number_less a b then b else a)"

definition number_minus :: "number \<Rightarrow> number \<Rightarrow> number" where
  "number_minus a b =
     (case (a, b) of
        (Finite x, Finite y) \<Rightarrow> to_number (x - y)
      | (Finite _, PlusInfinity) \<Rightarrow> MinusInfinity
      | (Finite _, MinusInfinity) \<Rightarrow> PlusInfinity
      | (PlusInfinity, Finite _) \<Rightarrow> PlusInfinity
      | (PlusInfinity, MinusInfinity) \<Rightarrow> PlusInfinity
      | (MinusInfinity, Finite _) \<Rightarrow> MinusInfinity
      | (MinusInfinity, PlusInfinity) \<Rightarrow> MinusInfinity
      | _ \<Rightarrow> NaN)"

text \<open>
  The command \<open>/link <start_post_url> [<end_post_url>]\<close>. Its answers: none to a user who is
  not an admin, the usage text, the refusal of the start url, the refusal of a range of more
  than 100, or the link made of the payload.
\<close>

datatype link_reply = NoReply | Usage | InvalidStart | RangeTooLarge | Link range_link

text \<open>\<open>ctx.message.text.split(' ').slice(1)\<close>\<close>

definition link_args :: "string \<Rightarrow> string list" where
  "link_args txt = tl (split (CHR '' '') txt)"

text \<open>The chat, the id of the start post and \<open>endId\<close>, before they are put in order.\<close>

definition link_request :: "string list \<Rightarrow> (string \<times> number \<times> number) option" where
  "link_request args =
     (case args of
        [] \<Rightarrow> None
      | a0 # rest \<Rightarrow>
          (case parsePostUrl a0 of
             None \<Rightarrow> None
           | Some (chatId, messageId) \<Rightarrow>
               Some (chatId, messageId,
                 (case rest of
                    [] \<Rightarrow> messageId
                  | a1 # _ \<Rightarrow>
                      (case parsePostUrl a1 of
                         None \<Rightarrow> messageId
                       | Some (_, endId) \<Rightarrow> endId)))))"

definition link_command :: "bool \<Rightarrow> string \<Rightarrow> link_reply" where
  "link_command is_admin txt =
     (if \<not> is_admin then NoReply
      else if link_args txt = [] then Usage
      else (case link_request (link_args txt) of
              None \<Rightarrow> InvalidStart
            | Some (chatId, messageId, endId) \<Rightarrow>
                (let startId = Math_min messageId endId; finalEndId = Math_max messageId endId
                 in if number_less (Finite 100) (number_minus finalEndId startId)
                    then RangeTooLarge
                    else Link \<lparr> link_chat = chatId, link_start = startId,
                                link_end = finalEndId \<rparr>)))"

section \<open>Removing what was delivered\<close>

text \<open>
  What a handler does to the chat once its files are sent, with the delay in milliseconds of
  each \<open>setTimeout\<close>: calls of \<open>deleteMessage\<close>, whatever their outcome, and the sending
  of the notice. The transport decides whether a deletion succeeds and whether the notice
  is sent, and under which message id.
\<close>

datatype event = DeleteMessage nat | NoticeSent nat | NoticeFailed

datatype effect = Do event | After nat "effect list"

record transport =
  deletes :: "nat \<Rightarrow> bool"
  notice :: "nat option"

definition AUTO_DELETE_SECONDS :: nat where
  "AUTO_DELETE_SECONDS = 3600"

text \<open>
  \<open>sendFile\<close> of \<open>scraper.js\<close>: deletion, notice and the timer of the notice share one
  \<open>try\<close>, so a failed deletion leaves out the notice.
\<close>

definition sendFile_cleanup :: "transport \<Rightarrow> nat \<Rightarrow> effect list" where
  "sendFile_cleanup tr m =
     Do (DeleteMessage m) #
     (if deletes tr m
      then (case notice tr of
              None \<Rightarrow> [Do NoticeFailed]
            | Some n \<Rightarrow> [Do (NoticeSent n), After 10000 [Do (DeleteMessage n)]])
      else [])"

text \<open>The timer that \<open>sendFile\<close> sets once the file is sent as message \<open>m\<close>.\<close>

definition sendFile_schedule :: "transport \<Rightarrow> nat \<Rightarrow> effect list" where
  "sendFile_schedule tr m = [After (AUTO_DELETE_SECONDS * 1000) (sendFile_cleanup tr m)]"

text \<open>
  The batch handlers delete every message they sent, each in its own \<open>try\<close>, then send the
  notice and set the timer that removes it.
\<close>

definition batch_cleanup :: "nat \<Rightarrow> transport \<Rightarrow> nat list \<Rightarrow> effect list" where
  "batch_cleanup delay tr sentMessages =
     map (\<lambda>m. Do (DeleteMessage m)) sentMessages @
     (case notice tr of
        None \<Rightarrow> [Do NoticeFailed]
      | Some n \<Rightarrow> [Do (NoticeSent n), After delay [Do (DeleteMessage n)]])"

text \<open>
  The action \<open>gall:<state>\<close> and \<open>handleStatelessBatch\<close> set the timer only when at least
  one file was sent; \<open>sentMessages\<close> holds the ids of the messages that were.
\<close>

definition gall_schedule :: "transport \<Rightarrow> nat list \<Rightarrow> effect list" where
  "gall_schedule tr sentMessages =
     (if sentMessages \<noteq> []
      then [After (AUTO_DELETE_SECONDS * 1000) (batch_cleanup 5000 tr sentMessages)] else [])"

definition handleStatelessBatch_schedule :: "transport \<Rightarrow> nat list \<Rightarrow> effect list" where
  "handleStatelessBatch_schedule tr sentMessages =
     (if sentMessages \<noteq> []
      then [After (AUTO_DELETE_SECONDS * 1000) (batch_cleanup 10000 tr sentMessages)] else [])"

text \<open>\<open>handleDumpBatch\<close> answers with an error and sets no timer when nothing could be copied.\<close>

definition handleDumpBatch_schedule :: "transport \<Rightarrow> nat list \<Rightarrow> effect list" where
  "handleDumpBatch_schedule tr sentMessages =
     (if sentMessages = [] then []
      else [After (AUTO_DELETE_SECONDS * 1000) (batch_cleanup 8000 tr sentMessages)])"

text \<open>The events of a list of effects with the time, from now, at which each happens.\<close>

fun timeline :: "nat \<Rightarrow> effect \<Rightarrow> (nat \<times> event) list" where
  "timeline t (Do ev) = [(t, ev)]"
| "timeline t (After d es) = concat (map (timeline (t + d)) es)"

definition schedule_timeline :: "effect list \<Rightarrow> (nat \<times> event) list" where
  "schedule_timeline es = concat (map (timeline 0) es)"


section \<open>Numbers, tokens and fields\<close>

lemma bit_length_lower: "0 < n \<Longrightarrow> 2 ^ (bit_length n - 1) \<le> n"
proof (induction n rule: bit_length.induct)
  case (1 n)
  show ?case
  proof (cases "n div 2 = 0")
    case True
    with 1(2) show ?thesis by (subst bit_length.simps, subst bit_length.simps) simp
  next
    case False
    then have "0 < n div 2" by simp
    with 1 have "2 ^ (bit_length (n div 2) - 1) \<le> n div 2" by simp
    moreover have "0 < bit_length (n div 2)" using False by (subst bit_length.simps) simp
    ultimately have "2 ^ bit_length (n div 2) \<le> 2 * (n div 2)"
      by (cases "bit_length (n div 2)") simp_all
    also have "\<dots> \<le> n" by simp
    finally show ?thesis using 1(2) by (subst bit_length.simps) simp
  qed
qed

lemma bit_length_upper: "n < 2 ^ bit_length n"
proof (induction n rule: bit_length.induct)
  case (1 n)
  show ?case
  proof (cases "n = 0")
    case True then show ?thesis by simp
  next
    case False
    with 1 have "n div 2 < 2 ^ bit_length (n div 2)" by simp
    then have "n < 2 * 2 ^ bit_length (n div 2)" by linarith
    then show ?thesis using False by (subst bit_length.simps) simp
  qed
qed

lemma bit_length_large: "2 ^ k \<le> n \<Longrightarrow> k < bit_length n"
proof -
  assume "2 ^ k \<le> n"
  also have "n < 2 ^ bit_length n" by (rule bit_length_upper)
  finally show ?thesis by simp
qed

lemma significand_lower:
  assumes "2 ^ 53 \<le> n"
  shows "2 ^ 52 * 2 ^ (bit_length n - 53) \<le> (n div 2 ^ (bit_length n - 53)) * 2 ^ (bit_length n - 53)"
proof -
  let ?e = "bit_length n - 53"
  from assms have b: "53 < bit_length n" by (rule bit_length_large)
  have z: "(0::nat) < 2 ^ 53" by (rule zero_less_power) simp
  from z assms have "0 < n" by (rule less_le_trans)
  from bit_length_lower [OF this] have "2 ^ (bit_length n - 1) \<le> n" .
  moreover have "bit_length n - 1 = 52 + ?e" using b by arith
  ultimately have "2 ^ (52 + ?e) \<le> n" by (simp only:)
  then have "2 ^ 52 * 2 ^ ?e \<le> n" by (simp only: power_add)
  then have "(2 ^ 52 * 2 ^ ?e) div 2 ^ ?e \<le> n div 2 ^ ?e" by (rule div_le_mono)
  moreover have "((2::nat) ^ 52 * 2 ^ ?e) div 2 ^ ?e = 2 ^ 52"
    by (rule nonzero_mult_div_cancel_right) simp
  ultimately have "2 ^ 52 \<le> n div 2 ^ ?e" by (simp only:)
  then show ?thesis by (rule mult_le_mono1)
qed

lemma nearest_double_cases:
  assumes "nearest_double n = Some m"
  shows "m = n \<and> n < 2 ^ 53 \<or>
    2 ^ 53 \<le> n \<and> (m = (n div 2 ^ (bit_length n - 53)) * 2 ^ (bit_length n - 53)
       \<or> m = (n div 2 ^ (bit_length n - 53) + 1) * 2 ^ (bit_length n - 53))"
proof (cases "n < 2 ^ 53")
  case True
  with assms have "m = n" unfolding nearest_double_def by (simp only: if_True option.inject)
  with True show ?thesis by blast
next
  case False
  then have l: "2 ^ 53 \<le> n" by (simp only: not_less)
  from assms False have "2 ^ 1024 - 2 ^ 970 \<le> n \<Longrightarrow> False"
    unfolding nearest_double_def by (simp only: if_True if_False option.distinct)
  then have "\<not> 2 ^ 1024 - 2 ^ 970 \<le> n" by blast
  with assms False show ?thesis
    unfolding nearest_double_def Let_def
    by (simp only: if_False l simp_thms option.inject split: if_splits)
qed

lemma nearest_double_large:
  assumes "nearest_double n = Some m" and "2 ^ 53 \<le> n"
  shows "2 ^ 53 \<le> m"
proof -
  let ?e = "bit_length n - 53"
  from assms(2) have "53 < bit_length n" by (rule bit_length_large)
  then have "1 \<le> ?e" by simp
  then have "(2::nat) ^ 1 \<le> 2 ^ ?e" by (intro power_increasing) simp_all
  then have "(2::nat) ^ 52 * 2 ^ 1 \<le> 2 ^ 52 * 2 ^ ?e" by (rule mult_le_mono2)
  moreover have "(2::nat) ^ 53 = 2 ^ 52 * 2 ^ 1" by (simp only: power_add [symmetric]) simp
  ultimately have "(2::nat) ^ 53 \<le> 2 ^ 52 * 2 ^ ?e" by (simp only:)
  also have "\<dots> \<le> (n div 2 ^ ?e) * 2 ^ ?e" using assms(2) by (rule significand_lower)
  finally have a: "2 ^ 53 \<le> (n div 2 ^ ?e) * 2 ^ ?e" .
  moreover have "(n div 2 ^ ?e) * 2 ^ ?e \<le> (n div 2 ^ ?e + 1) * 2 ^ ?e"
    by (rule mult_le_mono1) simp
  ultimately have b: "2 ^ 53 \<le> (n div 2 ^ ?e + 1) * 2 ^ ?e" by (rule order_trans)
  from assms(2) have "\<not> n < 2 ^ 53" by (simp only: not_less)
  with nearest_double_cases [OF assms(1)] a b show ?thesis by blast
qed

text \<open>No other integer is read as an integer below \<open>2^53\<close>.\<close>

lemma nearest_double_small:
  assumes "nearest_double v = Some x" and "x < 2 ^ 53"
  shows "v = x"
proof (cases "v < 2 ^ 53")
  case True
  with assms(1) show ?thesis unfolding nearest_double_def by (simp only: if_True option.inject)
next
  case False
  then have "2 ^ 53 \<le> v" by (simp only: not_less)
  from nearest_double_large [OF assms(1) this] have "\<not> x < 2 ^ 53" by (simp only: not_less)
  with assms(2) show ?thesis by (rule notE [rotated])
qed

lemma nearest_double_below_exponent:
  assumes "nearest_double v = Some x" and "10 ^ 21 \<le> v"
  shows "10 ^ 21 \<le> x"
proof -
  let ?e = "bit_length v - 53"
  have "(2::nat) ^ 53 \<le> 10 ^ 21" by simp
  with assms(2) have l: "2 ^ 53 \<le> v" by (rule order_trans [rotated])
  have low: "10 ^ 21 \<le> (v div 2 ^ ?e) * 2 ^ ?e"
  proof (cases "?e \<le> 21")
    case True
    then have "(2::nat) ^ ?e dvd 2 ^ 21" by (rule le_imp_power_dvd)
    moreover have "(2::nat) ^ 21 dvd 10 ^ 21" by simp
    ultimately have "(2::nat) ^ ?e dvd 10 ^ 21" by (rule dvd_trans)
    then have "(10::nat) ^ 21 = (10 ^ 21 div 2 ^ ?e) * 2 ^ ?e" by (simp only: dvd_div_mult_self)
    also have "\<dots> \<le> (v div 2 ^ ?e) * 2 ^ ?e"
      using assms(2) by (intro mult_le_mono1 div_le_mono)
    finally show ?thesis .
  next
    case False
    then have "22 \<le> ?e" by simp
    then have "(2::nat) ^ 22 \<le> 2 ^ ?e" by (intro power_increasing) simp_all
    then have "(2::nat) ^ 52 * 2 ^ 22 \<le> 2 ^ 52 * 2 ^ ?e" by (rule mult_le_mono2)
    moreover have "(10::nat) ^ 21 \<le> 2 ^ 52 * 2 ^ 22" by simp
    ultimately have "(10::nat) ^ 21 \<le> 2 ^ 52 * 2 ^ ?e" by (rule order_trans [rotated])
    also have "\<dots> \<le> (v div 2 ^ ?e) * 2 ^ ?e" using l by (rule significand_lower)
    finally show ?thesis .
  qed
  moreover have "(v div 2 ^ ?e) * 2 ^ ?e \<le> (v div 2 ^ ?e + 1) * 2 ^ ?e"
    by (rule mult_le_mono1) simp
  ultimately have up: "10 ^ 21 \<le> (v div 2 ^ ?e + 1) * 2 ^ ?e" by (rule order_trans)
  from l have "\<not> v < 2 ^ 53" by (simp only: not_less)
  with nearest_double_cases [OF assms(1)] low up show ?thesis by blast
qed

lemma to_number_small: "\<bar>i\<bar> < 2 ^ 53 \<Longrightarrow> to_number i = Finite i"
proof -
  assume a: "\<bar>i\<bar> < 2 ^ 53"
  then have "nat \<bar>i\<bar> < 2 ^ 53" by (simp add: nat_less_iff)
  then have "nearest_double (nat \<bar>i\<bar>) = Some (nat \<bar>i\<bar>)"
    unfolding nearest_double_def by (simp only: if_True)
  then show ?thesis unfolding to_number_def by (simp split: if_splits)
qed

lemma digit_char_decimal: "d < 10 \<Longrightarrow> digit_char d \<in> set ''0123456789''"
  unfolding digit_char_def
  by (auto simp: less_Suc_eq numeral_eq_Suc nth_Cons')

lemma digit_value_digit_char: "d < 10 \<Longrightarrow> digit_value 10 (digit_char d) = Some d"
  unfolding digit_char_def digit_value_def
  by (auto simp: less_Suc_eq numeral_eq_Suc nth_Cons')

lemma nat_digits_decimal: "set (nat_digits n) \<subseteq> set ''0123456789''"
proof (induction n rule: nat_digits.induct)
  case (1 n)
  show ?case
  proof (cases "n < 10")
    case True
    then show ?thesis using digit_char_decimal [of n] by (subst nat_digits.simps) simp
  next
    case False
    have "n mod 10 < 10" by simp
    from digit_char_decimal [OF this] 1 [OF False] False show ?thesis
      by (subst nat_digits.simps) simp
  qed
qed

lemma nat_digits_nonempty: "nat_digits n \<noteq> []"
  by (subst nat_digits.simps) simp

lemma leading_digits_append:
  "\<forall>c \<in> set s. digit_value r c \<noteq> None \<Longrightarrow>
     leading_digits r (s @ t) = map (\<lambda>c. the (digit_value r c)) s @ leading_digits r t"
  by (induction s) (auto split: option.splits)

lemma digit_value_decimal: "c \<in> set ''0123456789'' \<Longrightarrow> digit_value 10 c \<noteq> None"
  by (auto simp: digit_value_def)

lemma leading_digits_nat_digits:
  "digits_number 10 (leading_digits 10 (nat_digits n)) = n \<and> leading_digits 10 (nat_digits n) \<noteq> []"
proof (induction n rule: nat_digits.induct)
  case (1 n)
  show ?case
  proof (cases "n < 10")
    case True
    then show ?thesis
      by (subst (1 2) nat_digits.simps) (simp add: digit_value_digit_char digits_number_def)
  next
    case False
    have all: "\<forall>c \<in> set (nat_digits (n div 10)). digit_value 10 c \<noteq> None"
      using nat_digits_decimal [of "n div 10"] digit_value_decimal by blast
    have eq: "leading_digits 10 (nat_digits n) =
        leading_digits 10 (nat_digits (n div 10)) @ [n mod 10]"
      using False leading_digits_append [OF all, of "[digit_char (n mod 10)]"]
        leading_digits_append [OF all, of "[]"]
      by (subst nat_digits.simps) (simp add: digit_value_digit_char)
    from 1 [OF False] show ?thesis
      unfolding eq by (simp add: digits_number_def)
  qed
qed

lemma js_whitespace_heads:
  "\<forall>w \<in> set js_whitespace. w \<noteq> [] \<and> hd w \<notin> set ''0123456789''"
  by (simp add: js_whitespace_def)

lemma leading_space_none:
  assumes "c \<in> set ''0123456789''"
  shows "leading_space (c # cs) = None"
proof -
  have "take (length w) (c # cs) \<noteq> w" if "w \<in> set js_whitespace" for w
  proof -
    from that js_whitespace_heads have "w \<noteq> []" and h: "hd w \<notin> set ''0123456789''"
      by blast+
    then obtain x xs where w: "w = x # xs" by (cases w) auto
    with h assms have "x \<noteq> c" by auto
    then show ?thesis unfolding w by simp
  qed
  then show ?thesis by (auto simp: leading_space_def find_None_iff)
qed

lemma trim_start_decimal: "c \<in> set ''0123456789'' \<Longrightarrow> trim_start (c # cs) = c # cs"
  by (subst trim_start.simps) (simp add: leading_space_none)

text \<open>A text of decimal digits is read to its end.\<close>

lemma parseInt_decimal:
  assumes "s \<noteq> []" and "set s \<subseteq> set ''0123456789''"
  shows "parseInt s = to_number (int (digits_number 10 (leading_digits 10 s)))
    \<and> leading_digits 10 s = map (\<lambda>c. the (digit_value 10 c)) s"
proof -
  from assms(1) obtain c cs where s: "s = c # cs" by (cases s) auto
  have c: "c \<in> set ''0123456789''" using assms(2) s by simp
  have t: "trim_start s = s"
    unfolding s using c by (rule trim_start_decimal)
  have sign: "take 1 s \<noteq> ''-''" "take 1 s \<noteq> ''+''"
    using c unfolding s by auto
  have "cs = [] \<or> hd cs \<in> set ''0123456789''"
    using assms(2) unfolding s by (cases cs) simp_all
  then have hex: "take 2 s \<noteq> ''0x''" "take 2 s \<noteq> ''0X''"
    unfolding s by (cases cs; force)+
  have all: "\<forall>c \<in> set s. digit_value 10 c \<noteq> None"
    using assms(2) digit_value_decimal by blast
  have l: "leading_digits 10 s = map (\<lambda>c. the (digit_value 10 c)) s"
    using leading_digits_append [OF all, of "[]"] by simp
  with assms(1) have "leading_digits 10 s \<noteq> []" by simp
  then have "parseInt s = to_number (int (digits_number 10 (leading_digits 10 s)))"
    unfolding parseInt_def t using sign hex by (simp add: Let_def)
  with l show ?thesis by simp
qed

lemma digits_number_zeros:
  "digits_number 10 (ds @ replicate m 0) = digits_number 10 ds * 10 ^ m"
proof (induction m)
  case 0
  show ?case by simp
next
  case (Suc m)
  have "ds @ replicate (Suc m) 0 = (ds @ replicate m 0) @ [0]"
    by (simp add: replicate_append_same)
  then have "digits_number 10 (ds @ replicate (Suc m) 0) = digits_number 10 (ds @ replicate m 0) * 10"
    by (simp add: digits_number_def)
  with Suc show ?case by simp
qed

lemma nat_digits_length: "0 < x \<Longrightarrow> 10 ^ (length (nat_digits x) - 1) \<le> x"
proof (induction x rule: nat_digits.induct)
  case (1 n)
  show ?case
  proof (cases "n < 10")
    case True
    with 1(2) show ?thesis by (subst nat_digits.simps) simp
  next
    case False
    then have "0 < n div 10" by simp
    with 1(1) [OF False] have "10 ^ (length (nat_digits (n div 10)) - 1) \<le> n div 10" by simp
    moreover have "0 < length (nat_digits (n div 10))"
      using nat_digits_nonempty [of "n div 10"] by simp
    ultimately have "10 ^ length (nat_digits (n div 10)) \<le> 10 * (n div 10)"
      by (cases "length (nat_digits (n div 10))") simp_all
    also have "\<dots> \<le> n" by simp
    finally show ?thesis using False by (subst nat_digits.simps) simp
  qed
qed

lemma parseInt_zeros:
  "parseInt (nat_digits s @ replicate m (CHR ''0'')) = to_number (int (s * 10 ^ m))"
proof -
  let ?t = "nat_digits s @ replicate m (CHR ''0'')"
  have n: "?t \<noteq> []" using nat_digits_nonempty [of s] by simp
  have d: "set ?t \<subseteq> set ''0123456789''" using nat_digits_decimal [of s] by auto
  have "digit_value 10 (CHR ''0'') = Some 0" by (simp add: digit_value_def)
  then have z: "map (\<lambda>c. the (digit_value 10 c)) (replicate m (CHR ''0'')) = replicate m 0"
    by simp
  have s: "set (nat_digits s) \<subseteq> set ''0123456789''" by (rule nat_digits_decimal)
  from parseInt_decimal [OF nat_digits_nonempty s]
  have "leading_digits 10 (nat_digits s) = map (\<lambda>c. the (digit_value 10 c)) (nat_digits s)" ..
  with leading_digits_nat_digits [of s]
  have v: "digits_number 10 (map (\<lambda>c. the (digit_value 10 c)) (nat_digits s)) = s" by simp
  from parseInt_decimal [OF n d]
  have "parseInt ?t = to_number (int (digits_number 10 (map (\<lambda>c. the (digit_value 10 c)) ?t)))"
    by simp
  also have "digits_number 10 (map (\<lambda>c. the (digit_value 10 c)) ?t) = s * 10 ^ m"
    unfolding map_append z digits_number_zeros v ..
  finally show ?thesis .
qed

lemma to_number_int:
  "to_number (int n) = (case nearest_double n of None \<Rightarrow> PlusInfinity | Some m \<Rightarrow> Finite (int m))"
  by (simp add: to_number_def split: option.splits)

lemma find_Some_member: "List.find P xs = Some x \<Longrightarrow> P x \<and> x \<in> set xs"
  by (induction xs) (auto split: if_splits)

text \<open>What the search for the shortest decimal returns.\<close>

lemma shortest_decimal_reads_back:
  assumes "nearest_double x = Some x" and "0 < x"
  obtains k n s where "shortest_decimal x = (k, n, s)" and "0 < k" and "k \<le> n"
    and "n \<le> length (nat_digits x) + 1" and "10 ^ (k - 1) \<le> s"
    and "nearest_double (s * 10 ^ (n - k)) = Some x"
proof (cases "List.find (\<lambda>k. decimal_candidates x k \<noteq> []) [1 ..< Suc (length (nat_digits x))]")
  case None
  let ?L = "length (nat_digits x)"
  from None have "shortest_decimal x = (?L, ?L, x)" by (simp add: shortest_decimal_def)
  moreover have "10 ^ (?L - 1) \<le> x" using assms(2) by (rule nat_digits_length)
  moreover have "nearest_double (x * 10 ^ (?L - ?L)) = Some x" using assms(1) by simp
  moreover have "0 < ?L" using nat_digits_nonempty [of x] by simp
  ultimately show ?thesis using that [of ?L ?L x] by simp
next
  case (Some k)
  from find_Some_member [OF Some]
  have ne: "decimal_candidates x k \<noteq> []"
    and mem: "k \<in> set [1 ..< Suc (length (nat_digits x))]"
    by blast+
  from mem have "1 \<le> k" by (simp only: set_upt atLeastLessThan_iff)
  then have k: "0 < k" by (rule less_le_trans [OF zero_less_one])
  obtain n s where a: "arg_min_list (candidate_key x k) (decimal_candidates x k) = (n, s)"
    by (cases "arg_min_list (candidate_key x k) (decimal_candidates x k)") auto
  from arg_min_list_in [OF ne, of "candidate_key x k"] a
  have "(n, s) \<in> set (decimal_candidates x k)" by simp
  then have "k \<le> n" "n \<le> length (nat_digits x) + 1" "10 ^ (k - 1) \<le> s"
    "nearest_double (s * 10 ^ (n - k)) = Some x"
    unfolding decimal_candidates_def by auto
  moreover from Some a have "shortest_decimal x = (k, n, s)" by (simp add: shortest_decimal_def)
  ultimately show ?thesis using that [of k n s] k by simp
qed

lemma candidate_magnitude:
  fixes s :: nat
  assumes "0 < k" and "k \<le> n" and "10 ^ (k - 1) \<le> s"
  shows "10 ^ (n - 1) \<le> s * 10 ^ (n - k)"
proof -
  from assms(3) have "10 ^ (k - 1) * 10 ^ (n - k) \<le> s * 10 ^ (n - k)" by (rule mult_le_mono1)
  moreover have "(k - 1) + (n - k) = n - 1" using assms(1,2) by simp
  then have "(10::nat) ^ (k - 1) * 10 ^ (n - k) = 10 ^ (n - 1)"
    by (simp only: power_add [symmetric])
  ultimately show ?thesis by (simp only:)
qed

lemma nat_digits_zeros:
  "0 < s \<Longrightarrow> nat_digits (s * 10 ^ m) = nat_digits s @ replicate m (CHR ''0'')"
proof (induction m)
  case 0
  show ?case by simp
next
  case (Suc m)
  let ?y = "s * 10 ^ m"
  from Suc(2) have "0 < ?y" by simp
  then have "\<not> 10 * ?y < 10" by simp
  then have "nat_digits (10 * ?y) = nat_digits ?y @ [digit_char 0]"
    by (subst nat_digits.simps) simp
  moreover have "digit_char 0 = CHR ''0''" by (simp add: digit_char_def)
  moreover have "s * 10 ^ Suc m = 10 * ?y" by simp
  ultimately have "nat_digits (s * 10 ^ Suc m) = nat_digits ?y @ [CHR ''0'']" by (simp only:)
  with Suc show ?case by (simp add: replicate_append_same)
qed

text \<open>An integer below \<open>2^53\<close> is printed as its decimal digits.\<close>

lemma magnitude_small:
  assumes "x < 2 ^ 53"
  shows "magnitude_to_string x = nat_digits x"
proof (cases "x = 0")
  case True
  then show ?thesis by (simp add: magnitude_to_string_def nat_digits.simps digit_char_def)
next
  case False
  then have pos: "0 < x" by simp
  from assms have dbl: "nearest_double x = Some x"
    unfolding nearest_double_def by (simp only: if_True)
  from shortest_decimal_reads_back [OF dbl pos]
  obtain k n s where sd: "shortest_decimal x = (k, n, s)" and k0: "0 < k" and kn: "k \<le> n"
    and sl: "10 ^ (k - 1) \<le> s" and rb: "nearest_double (s * 10 ^ (n - k)) = Some x"
    by blast
  from nearest_double_small [OF rb assms] have v: "s * 10 ^ (n - k) = x" .
  have "(0::nat) < 10 ^ (k - 1)" by simp
  from this sl have s0: "0 < s" by (rule less_le_trans)
  have "(10::nat) ^ (n - 1) \<le> x" using candidate_magnitude [OF k0 kn sl] unfolding v .
  also note assms
  also have "(2::nat) ^ 53 < 10 ^ 21" by simp
  finally have "(10::nat) ^ (n - 1) < 10 ^ 21" .
  then have "n - 1 < 21" by (simp only: power_strict_increasing_iff [of 10] one_less_numeral_iff
        semiring_norm)
  then have n21: "n \<le> 21" by simp
  have "magnitude_to_string x = decimal_to_string (shortest_decimal x)"
    using False by (simp add: magnitude_to_string_def)
  also have "\<dots> = nat_digits s @ replicate (n - k) (CHR ''0'')"
    unfolding sd decimal_to_string_def using n21 by simp
  also have "\<dots> = nat_digits (s * 10 ^ (n - k))" using s0 by (simp only: nat_digits_zeros)
  finally show ?thesis unfolding v .
qed

text \<open>
  A non-negative integer below \<open>10^21\<close> that is a double is printed as digits that
  \<open>parseInt\<close> reads back as the same number.
\<close>

lemma number_to_string_plain:
  assumes "0 \<le> p" and "p < 10 ^ 21" and "to_number p = Finite p"
  shows "\<exists>s m. number_to_string (Finite p) = nat_digits s @ replicate m (CHR ''0'')
     \<and> to_number (int (s * 10 ^ m)) = Finite p"
proof (cases "nat p < 2 ^ 53")
  case True
  with assms(1) have "number_to_string (Finite p) = nat_digits (nat p) @ replicate 0 (CHR ''0'')"
    by (simp add: magnitude_small)
  moreover have "to_number (int (nat p * 10 ^ 0)) = Finite p" using assms(1,3) by simp
  ultimately show ?thesis by blast
next
  case False
  let ?x = "nat p"
  from False have big: "2 ^ 53 \<le> ?x" by (simp only: not_less)
  have "(0::nat) < 2 ^ 53" by (rule zero_less_power) simp
  from this big have pos: "0 < ?x" by (rule less_le_trans)
  from assms(1,3) have dbl: "nearest_double ?x = Some ?x"
    unfolding to_number_def by (auto split: option.splits)
  from assms(1,2) have lt: "?x < 10 ^ 21" by (simp add: nat_less_iff)
  from shortest_decimal_reads_back [OF dbl pos]
  obtain k n s where sd: "shortest_decimal ?x = (k, n, s)" and k0: "0 < k" and kn: "k \<le> n"
    and nl: "n \<le> length (nat_digits ?x) + 1" and sl: "10 ^ (k - 1) \<le> s"
    and rb: "nearest_double (s * 10 ^ (n - k)) = Some ?x"
    by blast
  have n21: "n \<le> 21"
  proof (rule ccontr)
    assume "\<not> n \<le> 21"
    then have n22: "22 \<le> n" by simp
    have "10 ^ (n - 1) \<le> s * 10 ^ (n - k)" using k0 kn sl by (rule candidate_magnitude)
    moreover have "(10::nat) ^ 21 \<le> 10 ^ (n - 1)"
      using n22 by (intro power_increasing) simp_all
    ultimately have "10 ^ 21 \<le> s * 10 ^ (n - k)" by (rule order_trans [rotated])
    from nearest_double_below_exponent [OF rb this] lt show False by simp
  qed
  from pos assms(1) have "number_to_string (Finite p) = decimal_to_string (shortest_decimal ?x)"
    by (simp add: magnitude_to_string_def)
  also have "\<dots> = nat_digits s @ replicate (n - k) (CHR ''0'')"
    unfolding sd decimal_to_string_def using n21 by simp
  finally have "number_to_string (Finite p) = nat_digits s @ replicate (n - k) (CHR ''0'')" .
  moreover have "to_number (int (s * 10 ^ (n - k))) = Finite (int ?x)"
    by (simp only: to_number_int rb option.case)
  then have "to_number (int (s * 10 ^ (n - k))) = Finite p" using assms(1) by simp
  ultimately show ?thesis by blast
qed

lemma parseInt_number_to_string:
  assumes "0 \<le> p" and "p < 10 ^ 21" and "to_number p = Finite p"
  shows "parseInt (number_to_string (Finite p)) = Finite p"
proof -
  from number_to_string_plain [OF assms] obtain s m
    where "number_to_string (Finite p) = nat_digits s @ replicate m (CHR ''0'')"
      and "to_number (int (s * 10 ^ m)) = Finite p" by blast
  then show ?thesis by (simp only: parseInt_zeros)
qed

lemma number_to_string_decimal:
  assumes "0 \<le> p" and "p < 10 ^ 21" and "to_number p = Finite p"
  shows "set (number_to_string (Finite p)) \<subseteq> set ''0123456789''"
proof -
  from number_to_string_plain [OF assms] obtain s m
    where f: "number_to_string (Finite p) = nat_digits s @ replicate m (CHR ''0'')" by blast
  show ?thesis unfolding f using nat_digits_decimal [of s] by auto
qed

text \<open>The characters of a printed non-negative integer, whatever its size.\<close>

lemma decimal_to_string_chars:
  "set (decimal_to_string d) \<subseteq> set ''0123456789.e+'' \<and> decimal_to_string d \<noteq> []"
proof -
  obtain k n s where d: "d = (k, n, s)" by (cases d) auto
  define S where "S = set ''0123456789.e+''"
  define ds where "ds = nat_digits s"
  define es where "es = nat_digits (n - 1)"
  have c: "CHR ''0'' \<in> S" "CHR ''.'' \<in> S" "CHR ''e'' \<in> S" "CHR ''+'' \<in> S"
    by (simp_all add: S_def)
  have "set ''0123456789'' \<subseteq> S" by (simp add: S_def)
  then have a: "set (nat_digits j) \<subseteq> S" for j
    using nat_digits_decimal [of j] by (rule order_trans [rotated])
  have ds: "set ds \<subseteq> S" "ds \<noteq> []" and es: "set es \<subseteq> S"
    unfolding ds_def es_def by (rule a nat_digits_nonempty)+
  have t: "set (take 1 ds) \<subseteq> S"
    using set_take_subset [of 1 ds] ds(1) by (rule order_trans)
  have r: "set (drop 1 ds) \<subseteq> S"
    using set_drop_subset [of 1 ds] ds(1) by (rule order_trans)
  have z: "set (replicate m (CHR ''0'')) \<subseteq> S" for m using c(1) by auto
  have eq: "decimal_to_string d =
      (if n \<le> 21 then ds @ replicate (n - k) (CHR ''0'')
       else take 1 ds @ (if k = 1 then [] else CHR ''.'' # drop 1 ds) @ [CHR ''e'', CHR ''+''] @ es)"
    unfolding d decimal_to_string_def ds_def es_def by simp
  have "set (decimal_to_string d) \<subseteq> S"
    unfolding eq using ds(1) es t r z [of "n - k"] c by (simp del: take_Suc_Cons drop_Suc_Cons)
  moreover have "decimal_to_string d \<noteq> []"
    unfolding eq using ds(2) by (cases ds) simp_all
  ultimately show ?thesis unfolding S_def by blast
qed

lemma number_to_string_chars:
  assumes "0 \<le> i"
  shows "set (number_to_string (Finite i)) \<subseteq> set ''0123456789.e+''
    \<and> number_to_string (Finite i) \<noteq> []"
proof (cases "nat i < 2 ^ 53")
  case True
  with assms have eq: "number_to_string (Finite i) = nat_digits (nat i)"
    by (simp add: magnitude_small)
  have "set ''0123456789'' \<subseteq> set ''0123456789.e+''" by simp
  with nat_digits_decimal [of "nat i"]
  have "set (nat_digits (nat i)) \<subseteq> set ''0123456789.e+''" by (rule order_trans)
  with nat_digits_nonempty [of "nat i"] show ?thesis unfolding eq by blast
next
  case False
  then have "2 ^ 53 \<le> nat i" by (simp only: not_less)
  moreover have "(0::nat) < 2 ^ 53" by simp
  ultimately have "0 < nat i" by (rule less_le_trans [rotated])
  with assms have eq: "number_to_string (Finite i) = decimal_to_string (shortest_decimal (nat i))"
    by (simp add: magnitude_to_string_def)
  show ?thesis unfolding eq by (rule decimal_to_string_chars)
qed

lemma split_no_sep: "d \<notin> set a \<Longrightarrow> split d a = [a]"
  by (induction a) auto

lemma split_field: "d \<notin> set a \<Longrightarrow> split d (a @ d # b) = a # split d b"
  by (induction a) auto

lemma or_dash_plain: "plain_value ds v \<Longrightarrow> d \<in> ds \<Longrightarrow> d \<noteq> CHR ''-'' \<Longrightarrow> d \<notin> set (or_dash v)"
  by (auto simp: plain_value_def or_dash_def split: option.splits)

lemma dash_to_null_or_dash: "plain_value ds v \<Longrightarrow> dash_to_null (Some (or_dash v)) = v"
  by (auto simp: plain_value_def or_dash_def dash_to_null_def split: option.splits)

lemma split_four:
  assumes "d \<notin> set a" "d \<notin> set b" "d \<notin> set c" "d \<notin> set e"
  shows "split d (a @ d # b @ d # c @ d # e) = [a, b, c, e]"
  using assms by (simp add: split_field split_no_sep)

lemma compact_roundtrip_plain:
  assumes p: "0 \<le> p" "p < 10 ^ 21" "to_number p = Finite p"
    and l: "plain_value {CHR '':''} (file_lang f)"
    and y: "plain_value {CHR '':''} (year f)"
    and q: "plain_value {CHR '':''} (quality f)"
  shows "deserializeFilters (serializeFilters (Finite p) f) = \<lparr> page = Finite p, filters = f \<rparr>"
proof -
  have n: "CHR '':'' \<notin> set (number_to_string (Finite p))"
    using number_to_string_decimal [OF p] by auto
  have parts: "split (CHR '':'') (serializeFilters (Finite p) f) =
      [number_to_string (Finite p), or_dash (file_lang f), or_dash (year f), or_dash (quality f)]"
    unfolding serializeFilters_def
    using split_four [OF n or_dash_plain [OF l] or_dash_plain [OF y] or_dash_plain [OF q]]
    by simp
  show ?thesis
    unfolding deserializeFilters_def parts
    by (simp add: at_index_def parseInt_or_0_def parseInt_number_to_string [OF p]
        dash_to_null_or_dash [OF l] dash_to_null_or_dash [OF y] dash_to_null_or_dash [OF q]
        del: number_to_string.simps)
qed

lemma year_plain:
  assumes "s \<in> set (YEARS cy)"
  shows "s \<noteq> [] \<and> s \<noteq> ''-'' \<and> set s \<subseteq> set ''0123456789.e+''"
proof -
  from assms obtain i where i: "2000 \<le> i" and s: "s = number_to_string (Finite i)"
    by (auto simp: YEARS_def)
  from i have "0 \<le> i" by simp
  from number_to_string_chars [OF this]
  have c: "set s \<subseteq> set ''0123456789.e+''" and n: "s \<noteq> []" unfolding s by blast+
  have "CHR ''-'' \<notin> set ''0123456789.e+''" by simp
  with c have "CHR ''-'' \<notin> set s" by blast
  then have "s \<noteq> ''-''" by auto
  with c n show ?thesis by blast
qed

lemma valid_filters_plain:
  assumes "valid_filters cy f" and "ds \<inter> set ''0123456789.e+'' = {}"
    and "ds \<inter> set (concat (map fst LANGUAGES @ QUALITIES)) = {}"
  shows "plain_value ds (file_lang f) \<and> plain_value ds (year f) \<and> plain_value ds (quality f)"
proof -
  have "plain_value ds (year f)"
  proof (cases "year f")
    case None then show ?thesis by (simp add: plain_value_def)
  next
    case (Some s)
    with assms(1) have "s \<in> set (YEARS cy)" by (simp add: valid_filters_def enumerated_def)
    from year_plain [OF this] assms(2) show ?thesis
      unfolding plain_value_def Some by auto
  qed
  moreover have "plain_value ds (file_lang f)"
  proof (cases "file_lang f")
    case None then show ?thesis by (simp add: plain_value_def)
  next
    case (Some s)
    with assms(1) have "s \<in> set (map fst LANGUAGES)" by (simp add: valid_filters_def enumerated_def)
    moreover from this assms(3) have "set s \<inter> ds = {}" by auto
    ultimately show ?thesis unfolding plain_value_def Some by (auto simp: LANGUAGES_def)
  qed
  moreover have "plain_value ds (quality f)"
  proof (cases "quality f")
    case None then show ?thesis by (simp add: plain_value_def)
  next
    case (Some s)
    with assms(1) have "s \<in> set QUALITIES" by (simp add: valid_filters_def enumerated_def)
    moreover from this assms(3) have "set s \<inter> ds = {}" by auto
    ultimately show ?thesis unfolding plain_value_def Some by (auto simp: QUALITIES_def)
  qed
  ultimately show ?thesis by simp
qed

text \<open>The number \<open>10^21\<close> is a double, and the first that is printed with an exponent.\<close>

lemma exponent_digits: "length (nat_digits 1000000000000000000000) = 22"
  by (simp add: nat_digits.simps)

lemma exponent_bit_length: "bit_length 1000000000000000000000 = 70" "bit_length 2000000000000000000000 = 71"
  "bit_length 10000000000000000000000 = 74"
  by (simp_all add: bit_length.simps)

lemma exponent_doubles: "nearest_double 1000000000000000000000 = Some 1000000000000000000000"
  "nearest_double 2000000000000000000000 = Some 2000000000000000000000"
  "nearest_double 10000000000000000000000 = Some 10000000000000000000000"
  by (simp_all add: nearest_double_def exponent_bit_length Let_def)

lemma exponent_candidates: "decimal_candidates 1000000000000000000000 1 = [(22, 1)]"
  by (simp add: decimal_candidates_def exponent_digits exponent_doubles)

lemma exponent_shortest: "shortest_decimal 1000000000000000000000 = (1, 22, 1)"
proof -
  have l: "[1 ..< Suc 22] = 1 # [2 ..< Suc 22]" by (simp add: upt_conv_Cons)
  have f: "List.find (\<lambda>k. decimal_candidates 1000000000000000000000 k \<noteq> []) (1 # r) = Some 1"
    for r using exponent_candidates by simp
  show ?thesis
    by (simp only: shortest_decimal_def exponent_digits l f option.case exponent_candidates arg_min_list.simps prod.case)
qed

lemma number_to_string_exponent: "number_to_string (Finite (10 ^ 21)) = ''1e+21''"
  by (simp add: magnitude_to_string_def exponent_shortest decimal_to_string_def nat_digits.simps digit_char_def)

lemma parseInt_stops_at_exponent: "parseInt ''1e+21'' = Finite 1"
proof -
  have "trim_start ''1e+21'' = ''1e+21''" by (rule trim_start_decimal) simp
  then show ?thesis
    by (simp add: parseInt_def Let_def digit_value_def digits_number_def to_number_small)
qed

text \<open>
  Claim C1, as amended. For every valid search state (a page that is a non-negative integer,
  each filter absent or one of the enumerated values) whose page is below \<open>10^21\<close>,
  decoding the compact token that \<open>serializeFilters\<close> builds gives the state back; an absent
  filter travels as \<open>-\<close>.
\<close>

theorem compact_token_roundtrip:
  assumes "valid_state current_year s" and "page s = Finite p" and "p < 10 ^ 21"
  shows "deserializeFilters (serializeFilters (page s) (filters s)) = s"
proof -
  from assms(1,2) have p: "0 \<le> p" "to_number p = Finite p"
    and v: "valid_filters current_year (filters s)"
    by (simp_all add: valid_state_def non_negative_integer_def)
  have "plain_value {CHR '':''} (file_lang (filters s)) \<and>
      plain_value {CHR '':''} (year (filters s)) \<and> plain_value {CHR '':''} (quality (filters s))"
    by (rule valid_filters_plain [OF v]) (simp_all add: LANGUAGES_def QUALITIES_def)
  then have "deserializeFilters (serializeFilters (Finite p) (filters s)) =
      \<lparr> page = Finite p, filters = filters s \<rparr>"
    using compact_roundtrip_plain [OF p(1) assms(3) p(2)] by simp
  then show ?thesis unfolding assms(2) [symmetric] by simp
qed

theorem compact_token_roundtrip_witness:
  "valid_state 2024
     \<lparr> page = Finite 2,
       filters = \<lparr> file_lang = Some ''HI'', year = Some ''2021'', quality = None \<rparr> \<rparr>
   \<and> serializeFilters (Finite 2)
         \<lparr> file_lang = Some ''HI'', year = Some ''2021'', quality = None \<rparr>
       = ''2:HI:2021:-''
   \<and> deserializeFilters ''2:HI:2021:-'' =
       \<lparr> page = Finite 2,
         filters = \<lparr> file_lang = Some ''HI'', year = Some ''2021'', quality = None \<rparr> \<rparr>"
proof -
  let ?st = "\<lparr> page = Finite 2,
       filters = \<lparr> file_lang = Some ''HI'', year = Some ''2021'', quality = None \<rparr> \<rparr>"
  have "number_to_string (Finite 2021) = ''2021''"
    by (simp add: magnitude_small nat_digits.simps digit_char_def)
  moreover have "(2021::int) \<in> set (rev [2000..2024])" by simp
  ultimately have y: "''2021'' \<in> set (YEARS 2024)"
    unfolding YEARS_def set_map by (metis imageI)
  have v: "valid_state 2024 ?st"
    using y by (simp add: valid_state_def valid_filters_def enumerated_def
        non_negative_integer_def to_number_small LANGUAGES_def)
  have e: "serializeFilters (Finite 2)
      \<lparr> file_lang = Some ''HI'', year = Some ''2021'', quality = None \<rparr> = ''2:HI:2021:-''"
    by (simp add: serializeFilters_def or_dash_def truthy_def magnitude_small
        nat_digits.simps digit_char_def)
  have p: "page ?st = Finite 2" "(2::int) < 10 ^ 21" by simp_all
  from compact_token_roundtrip [OF v p] e v show ?thesis by simp
qed

text \<open>
  The page \<open>10^21\<close>, a non-negative integer, with no filter: the token begins with
  \<open>1e+21\<close>, of which \<open>parseInt\<close> reads the \<open>1\<close>.
\<close>

theorem compact_token_exponent_counterexample:
  "valid_state 2024 \<lparr> page = Finite (10 ^ 21), filters = no_filters \<rparr>
   \<and> serializeFilters (Finite (10 ^ 21)) no_filters = ''1e+21:-:-:-''
   \<and> deserializeFilters (serializeFilters (Finite (10 ^ 21)) no_filters)
       = \<lparr> page = Finite 1, filters = no_filters \<rparr>
   \<and> deserializeFilters (serializeFilters (Finite (10 ^ 21)) no_filters)
       \<noteq> \<lparr> page = Finite (10 ^ 21), filters = no_filters \<rparr>"
proof -
  have d: "to_number (10 ^ 21) = Finite (10 ^ 21)"
    by (simp add: to_number_def exponent_doubles)
  then have v: "valid_state 2024 \<lparr> page = Finite (10 ^ 21), filters = no_filters \<rparr>"
    by (simp add: valid_state_def valid_filters_def enumerated_def non_negative_integer_def
        no_filters_def)
  have e: "serializeFilters (Finite (10 ^ 21)) no_filters = ''1e+21:-:-:-''"
    using number_to_string_exponent
    by (simp add: serializeFilters_def or_dash_def truthy_def no_filters_def)
  have r: "deserializeFilters ''1e+21:-:-:-'' = \<lparr> page = Finite 1, filters = no_filters \<rparr>"
    by (simp add: deserializeFilters_def at_index_def parseInt_or_0_def
        parseInt_stops_at_exponent dash_to_null_def no_filters_def)
  from v e r show ?thesis by simp
qed

section \<open>The share link round trip\<close>

lemma sextet_bounds:
  fixes x y z :: nat
  assumes "x < 256" "y < 256" "z < 256"
  shows "x div 4 < 64" "x mod 4 * 16 + y div 16 < 64" "y mod 16 * 4 + z div 64 < 64"
    "z mod 64 < 64" "x mod 4 * 16 < 64" "y mod 16 * 4 < 64"
proof -
  have a: "x mod 4 < 4" "y mod 16 < 16" by simp_all
  have b: "y div 16 < 16" "z div 64 < 4" "x div 4 < 64" using assms by simp_all
  show "x div 4 < 64" by fact
  show "x mod 4 * 16 + y div 16 < 64" using a(1) b(1) by linarith
  show "y mod 16 * 4 + z div 64 < 64" using a(2) b(2) by linarith
  show "z mod 64 < 64" by simp
  show "x mod 4 * 16 < 64" using a(1) by linarith
  show "y mod 16 * 4 < 64" using a(2) by linarith
qed

lemma split_div_mod:
  fixes a b k :: nat
  assumes "b < k"
  shows "(a * k + b) div k = a" "(a * k + b) mod k = b"
  using assms by simp_all

lemma sextets_join:
  fixes x y z :: nat
  assumes "x < 256" "y < 256" "z < 256"
  shows "x div 4 * 4 + (x mod 4 * 16 + y div 16) div 16 = x"
    and "(x mod 4 * 16 + y div 16) mod 16 * 16 + (y mod 16 * 4 + z div 64) div 4 = y"
    and "(y mod 16 * 4 + z div 64) mod 4 * 64 + z mod 64 = z"
    and "x div 4 * 4 + (x mod 4 * 16) div 16 = x"
    and "(x mod 4 * 16 + y div 16) mod 16 * 16 + (y mod 16 * 4) div 4 = y"
proof -
  have b: "y div 16 < 16" "z div 64 < 4" using assms by simp_all
  show "x div 4 * 4 + (x mod 4 * 16 + y div 16) div 16 = x"
    unfolding split_div_mod(1) [OF b(1)] by simp
  show "(x mod 4 * 16 + y div 16) mod 16 * 16 + (y mod 16 * 4 + z div 64) div 4 = y"
    unfolding split_div_mod(2) [OF b(1)] split_div_mod(1) [OF b(2)] by simp
  show "(y mod 16 * 4 + z div 64) mod 4 * 64 + z mod 64 = z"
    unfolding split_div_mod(2) [OF b(2)] by simp
  show "x div 4 * 4 + (x mod 4 * 16) div 16 = x" by simp
  show "(x mod 4 * 16 + y div 16) mod 16 * 16 + (y mod 16 * 4) div 4 = y"
    unfolding split_div_mod(2) [OF b(1)] by simp
qed

lemma base64_value_char: "n < 64 \<Longrightarrow> base64_value (base64url_char n) = Some n"
  unfolding base64url_char_def base64_value_def by (auto simp: Let_def)

lemma hex_upper_value: "d < 16 \<Longrightarrow> digit_value 16 (hex_upper d) = Some d"
  unfolding hex_upper_def digit_value_def by (auto simp: Let_def)

lemma base64url_encode_alphabet: "c \<in> set (base64url_encode s) \<Longrightarrow> base64_value c \<noteq> None"
proof (induction s arbitrary: c rule: base64url_encode.induct)
  case (1 a b c' rest)
  have lt: "(of_char a :: nat) < 256" "(of_char b :: nat) < 256" "(of_char c' :: nat) < 256"
    by simp_all
  from 1 show ?case
    using sextet_bounds [OF lt] by (auto simp: Let_def base64_value_char)
next
  case (2 a b)
  have lt: "(of_char a :: nat) < 256" "(of_char b :: nat) < 256" by simp_all
  from 2 show ?case
    using sextet_bounds [OF lt lt(1)] by (auto simp: Let_def base64_value_char)
next
  case (3 a)
  have lt: "(of_char a :: nat) < 256" by simp
  from 3 show ?case
    using sextet_bounds [OF lt lt lt] by (auto simp: Let_def base64_value_char)
next
  case 4
  then show ?case by simp
qed

lemma sextets_of_encode:
  "sextets_bytes (map (\<lambda>c. the (base64_value c)) (base64url_encode s)) = s"
proof (induction s rule: base64url_encode.induct)
  case (1 a b c rest)
  have lt: "(of_char a :: nat) < 256" "(of_char b :: nat) < 256" "(of_char c :: nat) < 256"
    by simp_all
  show ?case
    using 1 sextet_bounds [OF lt] sextets_join [OF lt]
    by (simp add: Let_def base64_value_char)
next
  case (2 a b)
  have lt: "(of_char a :: nat) < 256" "(of_char b :: nat) < 256" by simp_all
  show ?case
    using sextet_bounds [OF lt lt(1)] sextets_join [OF lt lt(1)]
    by (simp add: Let_def base64_value_char)
next
  case (3 a)
  have lt: "(of_char a :: nat) < 256" by simp
  show ?case
    using sextet_bounds [OF lt lt lt] sextets_join [OF lt lt lt]
    by (simp add: Let_def base64_value_char)
next
  case 4
  show ?case by simp
qed

lemma base64url_roundtrip: "base64url_decode (base64url_encode s) = s"
proof -
  have a: "base64_value c \<noteq> None" if "c \<in> set (base64url_encode s)" for c
    using that by (rule base64url_encode_alphabet)
  have "base64_value (CHR ''='') = None" by (simp add: base64_value_def)
  with a have "c \<noteq> CHR ''=''" if "c \<in> set (base64url_encode s)" for c
    using that by metis
  then have t: "takeWhile (\<lambda>c. c \<noteq> CHR ''='') (base64url_encode s) = base64url_encode s"
    by (simp add: takeWhile_eq_all_conv)
  from a have f: "filter (\<lambda>c. base64_value c \<noteq> None) (base64url_encode s) = base64url_encode s"
    by (simp add: filter_id_conv)
  show ?thesis unfolding base64url_decode_def t f by (rule sextets_of_encode)
qed

lemma unreserved_plain:
  "uri_unreserved c \<Longrightarrow> (of_char c :: nat) < 128 \<and> c \<noteq> CHR ''%'' \<and> c \<noteq> CHR ''|''"
  unfolding uri_unreserved_def by auto

lemma nibbles: "(of_char c :: nat) div 16 < 16" "(of_char c :: nat) mod 16 < 16"
proof -
  have "(of_char c :: nat) < 16 * 16" using nat_of_char_less_256 [of c] by simp
  then show "(of_char c :: nat) div 16 < 16" by (rule less_mult_imp_div_less)
  show "(of_char c :: nat) mod 16 < 16" by simp
qed

lemma hex_upper_plain:
  assumes "d < 16"
  shows "(of_char (hex_upper d) :: nat) < 128 \<and> hex_upper d \<noteq> CHR ''|''"
proof -
  have le: "(of_char (hex_upper d) :: nat) \<le> 70"
    using assms unfolding hex_upper_def by simp
  then have "(of_char (hex_upper d) :: nat) \<noteq> of_char (CHR ''|'')" by simp
  then have "hex_upper d \<noteq> CHR ''|''" by metis
  with le show ?thesis by simp
qed

lemma percent_plain: "c' \<in> set (percent c) \<Longrightarrow> (of_char c' :: nat) < 128 \<and> c' \<noteq> CHR ''|''"
proof -
  from hex_upper_plain [OF nibbles(1)] hex_upper_plain [OF nibbles(2)]
  show "c' \<in> set (percent c) \<Longrightarrow> ?thesis" by (auto simp: percent_def)
qed

lemma encodeURIComponent_plain:
  "c \<in> set (encodeURIComponent q) \<Longrightarrow> (of_char c :: nat) < 128 \<and> c \<noteq> CHR ''|''"
  unfolding encodeURIComponent_def
  using unreserved_plain percent_plain by (fastforce split: if_splits)

lemma unescape_percent: "unescape (percent c @ s) = map_option ((#) c) (unescape s)"
proof -
  show ?thesis
    by (simp add: percent_def hex_upper_value [OF nibbles(1)] hex_upper_value [OF nibbles(2)])
qed

lemma unescape_encodeURIComponent: "unescape (encodeURIComponent q) = Some q"
proof (induction q)
  case Nil
  show ?case by (simp add: encodeURIComponent_def)
next
  case (Cons c q)
  have step: "encodeURIComponent (c # q) =
      (if uri_unreserved c then [c] else percent c) @ encodeURIComponent q"
    by (simp add: encodeURIComponent_def)
  show ?case
  proof (cases "uri_unreserved c")
    case True
    with unreserved_plain [OF True] Cons show ?thesis unfolding step by simp
  next
    case False
    with Cons show ?thesis unfolding step by (simp add: unescape_percent)
  qed
qed

lemma unescape_plain: "CHR ''%'' \<notin> set s \<Longrightarrow> unescape s = Some s"
  by (induction s) auto

lemma ascii_utf8_valid: "ascii s \<Longrightarrow> utf8_valid s"
proof (induction s)
  case Nil
  show ?case by (subst utf8_valid.simps) simp
next
  case (Cons c s)
  then have "(of_char c :: nat) < 128" "utf8_valid s" by (simp_all add: ascii_def)
  then show ?case by (subst utf8_valid.simps) (simp add: first_sequence_def)
qed

lemma ascii_utf8_to_string: "ascii s \<Longrightarrow> utf8_to_string s = s"
proof (induction s)
  case Nil
  show ?case by (subst utf8_to_string.simps) simp
next
  case (Cons c s)
  then have "(of_char c :: nat) < 128" "utf8_to_string s = s" by (simp_all add: ascii_def)
  then show ?case by (subst utf8_to_string.simps) (simp add: first_sequence_def)
qed

lemma decodeURIComponent_encode:
  "utf8_valid q \<Longrightarrow> decodeURIComponent (encodeURIComponent q) = Some q"
  by (simp add: decodeURIComponent_def unescape_encodeURIComponent)

lemma decodeURIComponent_plain:
  "ascii s \<Longrightarrow> CHR ''%'' \<notin> set s \<Longrightarrow> decodeURIComponent s = Some s"
  by (simp add: decodeURIComponent_def unescape_plain ascii_utf8_valid)

lemma or_dash_link_plain:
  assumes "plain_value link_special v"
  shows "ascii (or_dash v)" "CHR ''%'' \<notin> set (or_dash v)" "CHR ''|'' \<notin> set (or_dash v)"
proof -
  have "or_dash v = ''-'' \<or> (set (or_dash v) \<inter> link_special = {})"
    using assms by (cases v) (simp_all add: plain_value_def or_dash_def)
  moreover have "CHR ''-'' \<notin> link_special" by (simp add: link_special_def)
  ultimately have d: "set (or_dash v) \<inter> link_special = {}" by auto
  have "CHR ''%'' \<in> link_special" "CHR ''|'' \<in> link_special" by (simp_all add: link_special_def)
  with d show "CHR ''%'' \<notin> set (or_dash v)" "CHR ''|'' \<notin> set (or_dash v)" by blast+
  have "(of_char c :: nat) < 128" if "c \<in> set (or_dash v)" for c
  proof -
    from that d have "c \<notin> link_special" by blast
    then show ?thesis by (simp add: link_special_def)
  qed
  then show "ascii (or_dash v)" by (simp add: ascii_def)
qed

lemma number_link_plain:
  assumes "0 \<le> p" "p < 10 ^ 21" "to_number p = Finite p"
  shows "ascii (number_to_string (Finite p))" "CHR ''%'' \<notin> set (number_to_string (Finite p))"
    "CHR ''|'' \<notin> set (number_to_string (Finite p))"
  using number_to_string_decimal [OF assms] by (auto simp: ascii_def)

lemma split_five:
  assumes "d \<notin> set a" "d \<notin> set b" "d \<notin> set c" "d \<notin> set e" "d \<notin> set g"
  shows "split d (a @ d # b @ d # c @ d # e @ d # g) = [a, b, c, e, g]"
  using assms by (simp add: split_field split_no_sep)

lemma ascii_append: "ascii (a @ b) \<longleftrightarrow> ascii a \<and> ascii b"
  by (auto simp: ascii_def)

lemma ascii_Cons: "ascii (c # s) \<longleftrightarrow> (of_char c :: nat) < 128 \<and> ascii s"
  by (auto simp: ascii_def)

lemma share_roundtrip_plain:
  assumes n: "page st = Finite p"
    and p: "0 \<le> p" "p < 10 ^ 21" "to_number p = Finite p"
    and l: "plain_value link_special (file_lang (filters st))"
    and y: "plain_value link_special (year (filters st))"
    and k: "plain_value link_special (quality (filters st))"
    and q: "utf8_valid q"
  shows "stateless_batch_decode (share_payload q st) = Inr (Some q, st)"
proof -
  let ?e = "encodeURIComponent q" and ?n = "number_to_string (Finite p)"
  let ?l = "or_dash (file_lang (filters st))" and ?y = "or_dash (year (filters st))"
  let ?k = "or_dash (quality (filters st))"
  let ?text = "?e @ CHR ''|'' # ?n @ CHR ''|'' # ?l @ CHR ''|'' # ?y @ CHR ''|'' # ?k"
  have e: "ascii ?e" "CHR ''|'' \<notin> set ?e"
    using encodeURIComponent_plain [of _ q] by (auto simp: ascii_def)
  have "ascii ?text"
    using e(1) number_link_plain(1) [OF p] or_dash_link_plain(1) [OF l]
      or_dash_link_plain(1) [OF y] or_dash_link_plain(1) [OF k]
    by (simp add: ascii_append ascii_Cons del: number_to_string.simps)
  then have decoded: "utf8_to_string ?text = ?text" by (rule ascii_utf8_to_string)
  have parts: "split (CHR ''|'') ?text = [?e, ?n, ?l, ?y, ?k]"
    by (rule split_five [OF e(2) number_link_plain(3) [OF p] or_dash_link_plain(3) [OF l]
          or_dash_link_plain(3) [OF y] or_dash_link_plain(3) [OF k]])
  have fields: "map decodeURIComponent [?e, ?n, ?l, ?y, ?k] = map Some [q, ?n, ?l, ?y, ?k]"
    using decodeURIComponent_encode [OF q]
      decodeURIComponent_plain [OF number_link_plain(1,2) [OF p]]
      decodeURIComponent_plain [OF or_dash_link_plain(1,2) [OF l]]
      decodeURIComponent_plain [OF or_dash_link_plain(1,2) [OF y]]
      decodeURIComponent_plain [OF or_dash_link_plain(1,2) [OF k]]
    by (simp del: number_to_string.simps)
  have payload: "base64url_decode (share_payload q st) = ?text"
    unfolding share_payload_def n by (simp add: base64url_roundtrip del: number_to_string.simps)
  have "stateless_batch_decode (share_payload q st) =
      Inr (Some q, \<lparr> page = Finite p, filters = filters st \<rparr>)"
    unfolding stateless_batch_decode_def payload decoded parts fields
    by (simp add: all_some_def at_index_def parseInt_or_0_def parseInt_number_to_string [OF p]
        dash_to_null_or_dash [OF l] dash_to_null_or_dash [OF y] dash_to_null_or_dash [OF k]
        del: number_to_string.simps)
  then show ?thesis unfolding n [symmetric] by simp
qed

lemma link_special_digits: "link_special \<inter> set ''0123456789.e+'' = {}"
  by (auto simp: link_special_def)

lemma link_special_enum: "link_special \<inter> set (concat (map fst LANGUAGES @ QUALITIES)) = {}"
  by (auto simp: link_special_def LANGUAGES_def QUALITIES_def)

text \<open>
  Claim C2, as amended. For every valid search state whose page is below \<open>10^21\<close> and
  every non-empty, well-formed query text, the share action builds a payload (query
  percent-encoded, fields joined by \<open>|\<close>, the whole in base64url) from which
  \<open>handleStatelessBatch\<close> reads back exactly the query, the page and the filters.
\<close>

theorem share_link_roundtrip:
  assumes "valid_state current_year st" and "page st = Finite p" and "p < 10 ^ 21"
    and "utf8_valid q" and "q \<noteq> []"
  shows "share_action (Some q) st = Some (share_payload q st) \<and>
         stateless_batch_decode (share_payload q st) = Inr (Some q, st)"
proof -
  from assms(1,2) have p: "0 \<le> p" "to_number p = Finite p"
    and v: "valid_filters current_year (filters st)"
    by (simp_all add: valid_state_def non_negative_integer_def)
  have "plain_value link_special (file_lang (filters st)) \<and>
      plain_value link_special (year (filters st)) \<and>
      plain_value link_special (quality (filters st))"
    by (rule valid_filters_plain [OF v link_special_digits link_special_enum])
  with share_roundtrip_plain [OF assms(2) p(1) assms(3) p(2) _ _ _ assms(4)] assms(5)
  show ?thesis by (simp add: share_action_def)
qed

theorem share_link_roundtrip_witness:
  "valid_state 2024
     \<lparr> page = Finite 2,
       filters = \<lparr> file_lang = Some ''HI'', year = Some ''2021'', quality = None \<rparr> \<rparr>
   \<and> utf8_valid (''caf'' @ [CHR 0xC3, CHR 0xA9] @ '' 1|2%'')
   \<and> share_action (Some (''caf'' @ [CHR 0xC3, CHR 0xA9] @ '' 1|2%''))
       \<lparr> page = Finite 2,
         filters = \<lparr> file_lang = Some ''HI'', year = Some ''2021'', quality = None \<rparr> \<rparr>
       = Some ''Y2FmJUMzJUE5JTIwMSU3QzIlMjV8MnxISXwyMDIxfC0''
   \<and> stateless_batch_decode ''Y2FmJUMzJUE5JTIwMSU3QzIlMjV8MnxISXwyMDIxfC0'' =
       Inr (Some (''caf'' @ [CHR 0xC3, CHR 0xA9] @ '' 1|2%''),
         \<lparr> page = Finite 2,
           filters = \<lparr> file_lang = Some ''HI'', year = Some ''2021'', quality = None \<rparr> \<rparr>)"
proof -
  let ?st = "\<lparr> page = Finite 2,
    filters = \<lparr> file_lang = Some ''HI'', year = Some ''2021'', quality = None \<rparr> \<rparr>"
  let ?q = "''caf'' @ [CHR 0xC3, CHR 0xA9] @ '' 1|2%''"
  have "number_to_string (Finite 2021) = ''2021''"
    by (simp add: magnitude_small nat_digits.simps digit_char_def)
  moreover have "(2021::int) \<in> set (rev [2000..2024])" by simp
  ultimately have y: "''2021'' \<in> set (YEARS 2024)"
    unfolding YEARS_def set_map by (metis imageI)
  have v: "valid_state 2024 ?st"
    using y by (simp add: valid_state_def valid_filters_def enumerated_def
        non_negative_integer_def to_number_small LANGUAGES_def)
  have p: "page ?st = Finite 2" "(2::int) < 10 ^ 21" by simp_all
  have u: "utf8_valid ?q" by code_simp
  have n: "?q \<noteq> []" by simp
  have "number_to_string (Finite 2) = ''2''"
    by (simp add: magnitude_small nat_digits.simps digit_char_def)
  then have "share_payload ?q ?st =
      base64url_encode (encodeURIComponent ?q @ ''|2|HI|2021|-'')"
    by (simp add: share_payload_def or_dash_def truthy_def del: number_to_string.simps)
  also have "\<dots> = ''Y2FmJUMzJUE5JTIwMSU3QzIlMjV8MnxISXwyMDIxfC0''"
    by code_simp
  finally have e: "share_payload ?q ?st = ''Y2FmJUMzJUE5JTIwMSU3QzIlMjV8MnxISXwyMDIxfC0''" .
  from share_link_roundtrip [OF v p u n] v u show ?thesis unfolding e by simp
qed

text \<open>
  The page \<open>10^21\<close> with the query \<open>a\<close> and no filter: the payload spells
  \<open>a|1e+21|-|-|-\<close>, and the page read from it is 1.
\<close>

theorem share_link_exponent_counterexample:
  "valid_state 2024 \<lparr> page = Finite (10 ^ 21), filters = no_filters \<rparr>
   \<and> share_action (Some ''a'') \<lparr> page = Finite (10 ^ 21), filters = no_filters \<rparr>
       = Some (base64url_encode ''a|1e+21|-|-|-'')
   \<and> base64url_encode ''a|1e+21|-|-|-'' = ''YXwxZSsyMXwtfC18LQ''
   \<and> stateless_batch_decode ''YXwxZSsyMXwtfC18LQ''
       = Inr (Some ''a'', \<lparr> page = Finite 1, filters = no_filters \<rparr>)"
proof -
  have d: "to_number (10 ^ 21) = Finite (10 ^ 21)"
    by (simp add: to_number_def exponent_doubles)
  then have v: "valid_state 2024 \<lparr> page = Finite (10 ^ 21), filters = no_filters \<rparr>"
    by (simp add: valid_state_def valid_filters_def enumerated_def non_negative_integer_def
        no_filters_def)
  have a: "share_action (Some ''a'') \<lparr> page = Finite (10 ^ 21), filters = no_filters \<rparr>
      = Some (base64url_encode ''a|1e+21|-|-|-'')"
    using number_to_string_exponent
    by (simp add: share_action_def share_payload_def encodeURIComponent_def uri_unreserved_def
        or_dash_def truthy_def no_filters_def)
  have e: "base64url_encode ''a|1e+21|-|-|-'' = ''YXwxZSsyMXwtfC18LQ''"
    by code_simp
  have t: "utf8_to_string ''a|1e+21|-|-|-'' = ''a|1e+21|-|-|-''"
    by (rule ascii_utf8_to_string) (simp add: ascii_def)
  have f: "decodeURIComponent ''a'' = Some ''a''" "decodeURIComponent ''1e+21'' = Some ''1e+21''"
    "decodeURIComponent ''-'' = Some ''-''"
    by (rule decodeURIComponent_plain; simp add: ascii_def)+
  have r: "stateless_batch_decode (base64url_encode ''a|1e+21|-|-|-'')
      = Inr (Some ''a'', \<lparr> page = Finite 1, filters = no_filters \<rparr>)"
    unfolding stateless_batch_decode_def base64url_roundtrip t
    by (simp add: f all_some_def at_index_def parseInt_or_0_def parseInt_stops_at_exponent
        dash_to_null_def no_filters_def)
  from v a e r show ?thesis by simp
qed

section \<open>Fallback, failures, pages and trending\<close>

lemma trimmed: "(if length rs > n then take n rs else rs) = take n rs"
  by simp

lemma trackSearch_calls: "FindRecent k \<notin> set (snd (trackSearch e t q))"
  "\<not> list_ex is_fuse_search (snd (trackSearch e t q))"
  by (simp_all add: trackSearch_def)

text \<open>
  Claim C3. The executor enters the fuzzy fallback (whose first act is to read the working
  set of 1000 records) exactly when the trimmed exact result is empty, the query is not
  empty and neither a language nor a year filter is active; the quality filter plays no
  part in that. Fuse then runs unless that read fails, and the result carries
  \<open>isFuzzy = true\<close> exactly when Fuse has run.
\<close>

theorem fallback_trigger:
  "((FindRecent 1000 \<in> set (calls (searchFiles v e t query pg f))) =
      (exact_files v e query pg f = Inr [] \<and> query \<noteq> [] \<and> \<not> truthy (file_lang f)
         \<and> \<not> truthy (year f)))
   \<and> (list_ex is_fuse_search (calls (searchFiles v e t query pg f)) =
      (FindRecent 1000 \<in> set (calls (searchFiles v e t query pg f)) \<and> \<not> recent_read_fails e))
   \<and> (isFuzzy (result (searchFiles v e t query pg f)) =
      list_ex is_fuse_search (calls (searchFiles v e t query pg f)))"
  unfolding searchFiles_def exact_files_def
  by (auto simp: Let_def caught_def trimmed trackSearch_calls find_recent_def
      split: sum.splits if_splits)

theorem fallback_trigger_witness:
  "exact_files Scraper example_env ''intercepton'' 0 (no_filters \<lparr> quality := Some ''1080p'' \<rparr>)
     = Inr []
   \<and> FindRecent 1000 \<in> set (calls (searchFiles Scraper example_env Map.empty ''intercepton'' 0
         (no_filters \<lparr> quality := Some ''1080p'' \<rparr>)))
   \<and> isFuzzy (result (searchFiles Scraper example_env Map.empty ''intercepton'' 0
         (no_filters \<lparr> quality := Some ''1080p'' \<rparr>)))"
proof -
  have x: "exact_files Scraper example_env ''intercepton'' 0
      (no_filters \<lparr> quality := Some ''1080p'' \<rparr>) = Inr []"
    by (simp add: exact_files_def build_conditions_def present_def new_RegExp_def example_env_def no_filters_def
        escapeRegex_def regex_special_def bslash_def find_page_def find_recent_def matches_def
        RESULTS_PER_PAGE_def searchFiles_def caught_def truthy_def trackSearch_def js_length_def
        Let_def)
  have f: "\<not> truthy (file_lang (no_filters \<lparr> quality := Some ''1080p'' \<rparr>))"
    "\<not> truthy (year (no_filters \<lparr> quality := Some ''1080p'' \<rparr>))"
    "\<not> recent_read_fails example_env"
    by (simp_all add: no_filters_def truthy_def example_env_def)
  from fallback_trigger [of Scraper example_env Map.empty "''intercepton''" 0
      "no_filters \<lparr> quality := Some ''1080p'' \<rparr>"] x f
  show ?thesis by simp
qed

lemma trending_failure_is_swallowed:
  "result (searchFiles v (e \<lparr> trending_write_fails := b \<rparr>) t query pg f) =
   result (searchFiles v e t query pg f)"
proof -
  have l: "lang_condition v (e \<lparr> trending_write_fails := b \<rparr>) = lang_condition v e"
    by (auto simp: fun_eq_iff lang_condition_def new_RegExp_def
        split: variant.splits property.splits)
  have c: "build_conditions v (e \<lparr> trending_write_fails := b \<rparr>) query f =
      build_conditions v e query f"
    by (simp add: build_conditions_def new_RegExp_def l)
  have m: "matches (e \<lparr> trending_write_fails := b \<rparr>) = matches e"
    by (simp add: matches_def fun_eq_iff)
  have p: "find_page (e \<lparr> trending_write_fails := b \<rparr>) = find_page e"
    by (simp add: find_page_def m fun_eq_iff)
  have r: "find_recent (e \<lparr> trending_write_fails := b \<rparr>) = find_recent e"
    by (simp add: find_recent_def fun_eq_iff)
  show ?thesis
    unfolding searchFiles_def c p r
    by (auto simp: Let_def caught_def split: sum.splits)
qed

text \<open>
  Claim C7, as amended. When a read of \<open>filesCollection\<close> fails (the read of the
  result page, or the read of the working set once the fallback makes it), \<open>searchFiles\<close>
  returns the empty result with \<open>hasNext\<close> and \<open>hasPrev\<close> false. A failure of the store's
  one write, the update of the trending counter, is caught inside \<open>trackSearch\<close>: the result
  is the one of the same search without that failure. The function has no other way out:
  its value is always a result.
\<close>

theorem store_read_failure_gives_empty_result:
  "(page_read_fails e \<or>
      (recent_read_fails e \<and> FindRecent 1000 \<in> set (calls (searchFiles v e t query pg f)))
    \<longrightarrow> result (searchFiles v e t query pg f) = no_result)
   \<and> result (searchFiles v (e \<lparr> trending_write_fails := b \<rparr>) t query pg f) =
       result (searchFiles v e t query pg f)"
proof
  show "page_read_fails e \<or>
      (recent_read_fails e \<and> FindRecent 1000 \<in> set (calls (searchFiles v e t query pg f)))
    \<longrightarrow> result (searchFiles v e t query pg f) = no_result"
    unfolding searchFiles_def no_result_def
    by (auto simp: Let_def caught_def find_page_def find_recent_def trackSearch_calls
        split: sum.splits if_splits)
  show "result (searchFiles v (e \<lparr> trending_write_fails := b \<rparr>) t query pg f) =
       result (searchFiles v e t query pg f)"
    by (rule trending_failure_is_swallowed)
qed

theorem store_read_failure_gives_empty_result_witness:
  "page_read_fails (example_env \<lparr> page_read_fails := True \<rparr>)
   \<and> result (searchFiles Scraper (example_env \<lparr> page_read_fails := True \<rparr>) Map.empty
         ''inception'' 1 no_filters) = no_result
   \<and> recent_read_fails (example_env \<lparr> recent_read_fails := True \<rparr>)
   \<and> FindRecent 1000 \<in> set (calls (searchFiles Scraper (example_env \<lparr> recent_read_fails := True \<rparr>)
         Map.empty ''intercepton'' 0 no_filters))
   \<and> result (searchFiles Scraper (example_env \<lparr> recent_read_fails := True \<rparr>) Map.empty
         ''intercepton'' 0 no_filters) = no_result
   \<and> result (searchFiles Scraper (example_env \<lparr> trending_write_fails := True \<rparr>) Map.empty
         ''inception'' 0 no_filters)
       = result (searchFiles Scraper example_env Map.empty ''inception'' 0 no_filters)"
proof -
  have p: "page_read_fails (example_env \<lparr> page_read_fails := True \<rparr>)" by simp
  have r: "recent_read_fails (example_env \<lparr> recent_read_fails := True \<rparr>)" by simp
  have c: "FindRecent 1000 \<in> set (calls (searchFiles Scraper
      (example_env \<lparr> recent_read_fails := True \<rparr>) Map.empty ''intercepton'' 0 no_filters))"
    by (simp add: build_conditions_def present_def new_RegExp_def example_env_def no_filters_def
        escapeRegex_def regex_special_def bslash_def find_page_def find_recent_def matches_def
        RESULTS_PER_PAGE_def searchFiles_def caught_def truthy_def trackSearch_def js_length_def
        Let_def)
  from store_read_failure_gives_empty_result [of "example_env \<lparr> page_read_fails := True \<rparr>"
      Scraper Map.empty "''inception''" 1 no_filters] p
    store_read_failure_gives_empty_result [of "example_env \<lparr> recent_read_fails := True \<rparr>"
      Scraper Map.empty "''intercepton''" 0 no_filters] r c
    store_read_failure_gives_empty_result [of example_env Scraper Map.empty "''inception''" 0
      no_filters True]
  show ?thesis by blast
qed

text \<open>
  The update of the trending counter fails after a page was found: the call to the store is
  made and fails, the counter stays as it was, and the page found is returned.
\<close>

theorem trending_failure_counterexample:
  "trending_write_fails (example_env \<lparr> trending_write_fails := True \<rparr>)
   \<and> calls (searchFiles Scraper (example_env \<lparr> trending_write_fails := True \<rparr>) Map.empty
         ''inception'' 0 no_filters)
       = [FindPage [''inception''] 0 11, UpdateTrending ''inception'']
   \<and> trending_after (searchFiles Scraper (example_env \<lparr> trending_write_fails := True \<rparr>)
         Map.empty ''inception'' 0 no_filters) ''inception'' = None
   \<and> files (result (searchFiles Scraper (example_env \<lparr> trending_write_fails := True \<rparr>)
         Map.empty ''inception'' 0 no_filters)) = collection example_env
   \<and> result (searchFiles Scraper (example_env \<lparr> trending_write_fails := True \<rparr>) Map.empty
         ''inception'' 0 no_filters) \<noteq> no_result"
  by (simp add: build_conditions_def present_def new_RegExp_def example_env_def no_filters_def
        escapeRegex_def regex_special_def bslash_def find_page_def find_recent_def matches_def
        RESULTS_PER_PAGE_def searchFiles_def caught_def truthy_def trackSearch_def js_length_def
        no_result_def Let_def)

text \<open>
  Claim C9, as amended. For every page \<open>p \<ge> 0\<close>, when the patterns are accepted and no
  read of the store fails, \<open>hasPrev\<close> is \<open>p > 0\<close>.
\<close>

theorem hasPrev_when_served:
  assumes "0 \<le> pg" and "build_conditions v e query f = Inr conds"
    and "\<not> page_read_fails e" and "\<not> recent_read_fails e"
  shows "hasPrev (result (searchFiles v e t query pg f)) = (pg > 0)"
proof -
  from assms(1) have "0 \<le> pg * int RESULTS_PER_PAGE"
    by (rule mult_nonneg_nonneg) simp
  then have skip: "\<not> pg * int RESULTS_PER_PAGE < 0" by simp
  show ?thesis
    using assms(2-4) skip unfolding searchFiles_def
    by (auto simp: Let_def find_page_def find_recent_def split: sum.splits if_splits)
qed

theorem hasPrev_when_served_witness:
  "build_conditions Scraper example_env ''inception'' no_filters = Inr [''inception'']
   \<and> hasPrev (result (searchFiles Scraper example_env Map.empty ''inception'' 2 no_filters))"
proof -
  have b: "build_conditions Scraper example_env ''inception'' no_filters = Inr [''inception'']"
    by (simp add: build_conditions_def present_def new_RegExp_def example_env_def no_filters_def
        escapeRegex_def regex_special_def bslash_def find_page_def find_recent_def matches_def
        RESULTS_PER_PAGE_def searchFiles_def caught_def truthy_def trackSearch_def js_length_def
        Let_def)
  have s: "\<not> page_read_fails example_env" "\<not> recent_read_fails example_env"
    by (simp_all add: example_env_def)
  from hasPrev_when_served [OF _ b s, of 2 Map.empty] b show ?thesis by simp
qed

theorem hasPrev_every_page_counterexample:
  "hasPrev (result (searchFiles Scraper (example_env \<lparr> page_read_fails := True \<rparr>) Map.empty
       ''inception'' 1 no_filters)) \<noteq> ((1::int) > 0)"
  by (simp add: build_conditions_def present_def new_RegExp_def example_env_def no_filters_def
        escapeRegex_def regex_special_def bslash_def find_page_def find_recent_def matches_def
        RESULTS_PER_PAGE_def searchFiles_def caught_def truthy_def trackSearch_def js_length_def
        Let_def)

text \<open>
  Claim C10. When the exact page is empty, the query is not empty, neither a language nor
  a year filter is active and the read of the 1000 most recent records succeeds, the result
  is fuzzy and its records are the window of the page in Fuse's ranking of those records
  against the query text alone: whatever the quality filter holds, it is not applied to them.
\<close>

theorem fallback_ignores_quality:
  assumes "exact_files v e query pg f = Inr []" and "query \<noteq> []"
    and "\<not> truthy (file_lang f)" and "\<not> truthy (year f)" and "\<not> recent_read_fails e"
  shows "isFuzzy (result (searchFiles v e t query pg f))
    \<and> files (result (searchFiles v e t query pg f)) =
       take RESULTS_PER_PAGE
         (drop (nat (pg * int RESULTS_PER_PAGE)) (fuse_search e (take 1000 (collection e)) query))"
  using assms unfolding searchFiles_def exact_files_def
  by (auto simp: Let_def caught_def trimmed find_recent_def split: sum.splits if_splits)

theorem fallback_ignores_quality_witness:
  "exact_files Scraper example_env ''intercepton'' 0 (no_filters \<lparr> quality := Some ''1080p'' \<rparr>)
     = Inr []
   \<and> truthy (quality (no_filters \<lparr> quality := Some ''1080p'' \<rparr>))
   \<and> isFuzzy (result (searchFiles Scraper example_env Map.empty ''intercepton'' 0
       (no_filters \<lparr> quality := Some ''1080p'' \<rparr>)))
   \<and> files (result (searchFiles Scraper example_env Map.empty ''intercepton'' 0
       (no_filters \<lparr> quality := Some ''1080p'' \<rparr>))) = collection example_env
   \<and> \<not> matches example_env [escapeRegex ''1080p''] (hd (collection example_env))"
proof -
  have x: "exact_files Scraper example_env ''intercepton'' 0
      (no_filters \<lparr> quality := Some ''1080p'' \<rparr>) = Inr []"
    by (simp add: exact_files_def build_conditions_def present_def new_RegExp_def example_env_def
        no_filters_def escapeRegex_def regex_special_def bslash_def find_page_def matches_def
        RESULTS_PER_PAGE_def truthy_def Let_def)
  have f: "''intercepton'' \<noteq> []"
    "\<not> truthy (file_lang (no_filters \<lparr> quality := Some ''1080p'' \<rparr>))"
    "\<not> truthy (year (no_filters \<lparr> quality := Some ''1080p'' \<rparr>))"
    "\<not> recent_read_fails example_env"
    by (simp_all add: no_filters_def truthy_def example_env_def)
  have q: "truthy (quality (no_filters \<lparr> quality := Some ''1080p'' \<rparr>))"
    by (simp add: no_filters_def truthy_def)
  have w: "take RESULTS_PER_PAGE (drop (nat (0 * int RESULTS_PER_PAGE))
       (fuse_search example_env (take 1000 (collection example_env)) ''intercepton''))
     = collection example_env"
    by (simp add: example_env_def RESULTS_PER_PAGE_def)
  have m: "\<not> matches example_env [escapeRegex ''1080p''] (hd (collection example_env))"
    by (simp add: example_env_def escapeRegex_def regex_special_def bslash_def matches_def)
  from fallback_ignores_quality [OF x f, of Map.empty] x q w m show ?thesis by simp
qed

lemma upsert_increment_count:
  "upsert_increment t k time k = Some (count_of t k + 1, time)"
  by (simp add: upsert_increment_def count_of_def split: option.splits)

text \<open>
  Claim C4, as amended. One update of the trending counter, keyed by the lower-cased query,
  is issued exactly when the query has at least 3 characters, the page is 0, no filter is
  active and the exact search found a record; it adds one to the count and sets the
  time stamp unless the update itself fails. In every other case, the fuzzy fallback
  included, no update is issued and the counters stay as they were.
\<close>

theorem trending_update:
  "filter is_update_trending (calls (searchFiles v e t query pg f)) =
     (if 3 \<le> js_length query \<and> pg = 0 \<and> \<not> truthy (file_lang f) \<and> \<not> truthy (year f)
         \<and> \<not> truthy (quality f) \<and> found v e query pg f
      then [UpdateTrending (toLowerCase e query)] else [])
   \<and> trending_after (searchFiles v e t query pg f) =
     (if 3 \<le> js_length query \<and> pg = 0 \<and> \<not> truthy (file_lang f) \<and> \<not> truthy (year f)
         \<and> \<not> truthy (quality f) \<and> found v e query pg f \<and> \<not> trending_write_fails e
      then upsert_increment t (toLowerCase e query) (now e) else t)
   \<and> upsert_increment t (toLowerCase e query) (now e) (toLowerCase e query) =
       Some (count_of t (toLowerCase e query) + 1, now e)"
proof -
  have empty: "js_length [] = 0" by (simp add: js_length_def)
  show ?thesis
    unfolding searchFiles_def found_def exact_files_def
    by (auto simp: Let_def caught_def trimmed trackSearch_def empty upsert_increment_count
        split: sum.splits if_splits)
qed

theorem trending_update_witness:
  "found Scraper example_env ''inception'' 0 no_filters
   \<and> filter is_update_trending
       (calls (searchFiles Scraper example_env Map.empty ''inception'' 0 no_filters))
       = [UpdateTrending ''inception'']
   \<and> trending_after (searchFiles Scraper example_env Map.empty ''inception'' 0 no_filters)
       ''inception'' = Some (1, 1700000000)"
proof -
  have a: "found Scraper example_env ''inception'' 0 no_filters"
    by (simp add: found_def exact_files_def build_conditions_def present_def new_RegExp_def example_env_def no_filters_def
        escapeRegex_def regex_special_def bslash_def find_page_def find_recent_def matches_def
        RESULTS_PER_PAGE_def searchFiles_def caught_def truthy_def trackSearch_def js_length_def
        Let_def)
  have b: "3 \<le> js_length ''inception''" by (simp add: js_length_def)
  have c: "\<not> truthy (file_lang no_filters)" "\<not> truthy (year no_filters)"
    "\<not> truthy (quality no_filters)" "\<not> trending_write_fails example_env"
    "toLowerCase example_env ''inception'' = ''inception''" "now example_env = 1700000000"
    by (simp_all add: no_filters_def truthy_def example_env_def)
  from trending_update [of Scraper example_env Map.empty "''inception''" 0 no_filters] a b c
  show ?thesis by (simp add: count_of_def)
qed

theorem trending_every_search_counterexample:
  "3 \<le> js_length ''intercepton''
   \<and> filter is_update_trending
       (calls (searchFiles Scraper example_env Map.empty ''intercepton'' 0 no_filters)) = []
   \<and> trending_after (searchFiles Scraper example_env Map.empty ''intercepton'' 0 no_filters)
       ''intercepton'' = None"
  by (simp add: build_conditions_def present_def new_RegExp_def example_env_def no_filters_def
        escapeRegex_def regex_special_def bslash_def find_page_def find_recent_def matches_def
        RESULTS_PER_PAGE_def searchFiles_def caught_def truthy_def trackSearch_def js_length_def
        Let_def)

section \<open>Escaping in the composer\<close>

lemma regex_special_syntax: "regex_special c = syntax_character c"
  by (auto simp: regex_special_def syntax_character_def)

lemma pattern_atoms_plain:
  "c \<noteq> bslash \<Longrightarrow>
     pattern_atoms (c # r) = (if syntax_character c then Operator c else Literal c) # pattern_atoms r"
  by (cases r) simp_all

lemma escapeRegex_literal: "pattern_atoms (escapeRegex s) = map Literal s"
proof (induction s)
  case Nil
  show ?case by (simp add: escapeRegex_def)
next
  case (Cons c s)
  have step: "escapeRegex (c # s) = (if regex_special c then [bslash, c] else [c]) @ escapeRegex s"
    by (simp add: escapeRegex_def)
  show ?case
  proof (cases "regex_special c")
    case True
    with Cons show ?thesis unfolding step by (simp add: regex_special_syntax)
  next
    case False
    then have "c \<noteq> bslash" and "\<not> syntax_character c"
      by (auto simp: regex_special_def regex_special_syntax [symmetric])
    with Cons False show ?thesis unfolding step by (simp add: pattern_atoms_plain)
  qed
qed

text \<open>
  Claim C5 at a year filter holding \<open>.*\<close>: both copies of \<open>searchFiles\<close> put the year into
  the pattern without escaping it, so its characters reach the engine as operators, while
  the same text as a query is escaped and read literally.
\<close>

theorem year_filter_not_escaped:
  "year_pattern Scraper ''.*'' = [bslash, CHR ''b'', CHR ''.'', CHR ''*'', bslash, CHR ''b'']
   \<and> pattern_atoms (year_pattern Scraper ''.*'')
       = [Escape (CHR ''b''), Operator (CHR ''.''), Operator (CHR ''*''), Escape (CHR ''b'')]
   \<and> pattern_atoms (year_pattern Index ''.*'') = [Operator (CHR ''.''), Operator (CHR ''*'')]
   \<and> pattern_atoms (escapeRegex ''.*'') = [Literal (CHR ''.''), Literal (CHR ''*'')]"
  using escapeRegex_literal [of "''.*''"]
  by (simp add: year_pattern_def bslash_def syntax_character_def)

section \<open>The range link\<close>

lemma digits_number_nines: "digits_number 10 (replicate n 9) + 1 = 10 ^ n"
proof (induction n)
  case 0
  show ?case by (simp add: digits_number_def)
next
  case (Suc n)
  have "replicate (Suc n) (9::nat) = replicate n 9 @ [9]" by (simp add: replicate_append_same)
  then have "digits_number 10 (replicate (Suc n) 9) = digits_number 10 (replicate n 9) * 10 + 9"
    by (simp add: digits_number_def)
  with Suc show ?case by simp
qed

text \<open>A message id of 309 nines is beyond the doubles: \<open>parseInt\<close> gives \<open>Infinity\<close>.\<close>

lemma parseInt_nines: "parseInt (replicate 309 (CHR ''9'')) = PlusInfinity"
proof -
  let ?s = "replicate 309 (CHR ''9'')"
  have n: "?s \<noteq> []" by simp
  have d: "set ?s \<subseteq> set ''0123456789''" by simp
  have "digit_value 10 (CHR ''9'') = Some 9" by (simp add: digit_value_def)
  then have m: "map (\<lambda>c. the (digit_value 10 c)) ?s = replicate 309 9" by simp
  from digits_number_nines [of 309] have v: "digits_number 10 (replicate 309 9) = 10 ^ 309 - 1"
    by simp
  from parseInt_decimal [OF n d]
  have "parseInt ?s = to_number (int (digits_number 10 (map (\<lambda>c. the (digit_value 10 c)) ?s)))"
    by simp
  also have "\<dots> = to_number (int (10 ^ 309 - 1))" unfolding m v ..
  also have "\<dots> = PlusInfinity"
    unfolding to_number_int by (simp add: nearest_double_def)
  finally show ?thesis .
qed

text \<open>Whatever \<open>to_number\<close> makes of a difference above 100 is above 100.\<close>

lemma to_number_above:
  assumes "0 \<le> d" and "\<not> number_less (Finite 100) (to_number d)"
  shows "d \<le> 100"
proof (cases "d < 2 ^ 53")
  case True
  with assms(1) have "to_number d = Finite d" by (simp add: to_number_small)
  with assms(2) show ?thesis by (simp add: number_less_def)
next
  case False
  with assms(1) have big: "2 ^ 53 \<le> nat d" by (simp add: le_nat_iff)
  from assms(1) have t: "to_number d =
      (case nearest_double (nat d) of None \<Rightarrow> PlusInfinity | Some m \<Rightarrow> Finite (int m))"
    using to_number_int [of "nat d"] by simp
  show ?thesis
  proof (cases "nearest_double (nat d)")
    case None
    with t assms(2) show ?thesis by (simp add: number_less_def)
  next
    case (Some m)
    from nearest_double_large [OF Some big] have "2 ^ 53 \<le> m" .
    moreover have "(100::nat) < 2 ^ 53" by simp
    ultimately have "100 < m" by (rule less_le_trans [rotated])
    with t Some assms(2) show ?thesis by (simp add: number_less_def)
  qed
qed

text \<open>
  When the link that the command answers with carries two finite ids, the start is the
  smaller, the end the larger, and their difference is at most 100.
\<close>

lemma link_finite_ids_bounded:
  assumes "link_command is_admin txt = Link d"
    and "link_start d = Finite s" and "link_end d = Finite e"
  shows "0 \<le> e - s \<and> e - s \<le> 100"
proof -
  from assms(1) obtain chatId messageId endId where
    r: "link_request (link_args txt) = Some (chatId, messageId, endId)"
    by (auto simp: link_command_def split: if_splits option.splits)
  with assms(1) have d: "d = \<lparr> link_chat = chatId, link_start = Math_min messageId endId,
      link_end = Math_max messageId endId \<rparr>"
    and b: "\<not> number_less (Finite 100)
        (number_minus (Math_max messageId endId) (Math_min messageId endId))"
    by (auto simp: link_command_def Let_def split: if_splits)
  from d assms(2,3) have m: "Math_min messageId endId = Finite s"
    "Math_max messageId endId = Finite e" by simp_all
  then obtain x y where xy: "messageId = Finite x" "endId = Finite y"
    by (cases messageId; cases endId)
      (simp_all add: Math_min_def Math_max_def number_less_def split: if_splits)
  from m have se: "s = min x y" "e = max x y"
    unfolding xy by (auto simp: Math_min_def Math_max_def number_less_def split: if_splits)
  then have nonneg: "0 \<le> e - s" by simp
  from b have "\<not> number_less (Finite 100) (to_number (e - s))"
    unfolding m by (simp add: number_minus_def)
  from to_number_above [OF nonneg this] nonneg show ?thesis by simp
qed

text \<open>
  Claim C6 at a start url whose message id is 309 nines. \<open>parseInt\<close> reads the id as
  \<open>Infinity\<close>, which the \<open>isNaN\<close> test of \<open>parsePostUrl\<close> lets through; start and end are
  both \<open>Infinity\<close>, their difference is \<open>NaN\<close>, and \<open>NaN > 100\<close> is false. So the command
  answers with a link, and the payload of that link carries \<open>null\<close> for both ids.
\<close>

theorem link_infinite_id_payload:
  "link_command True (''/link https://t.me/c/1/'' @ replicate 309 (CHR ''9''))
     = Link \<lparr> link_chat = ''-1001'', link_start = PlusInfinity, link_end = PlusInfinity \<rparr>
   \<and> number_minus PlusInfinity PlusInfinity = NaN
   \<and> \<not> number_less (Finite 100) NaN
   \<and> link_data \<lparr> link_chat = ''-1001'', link_start = PlusInfinity, link_end = PlusInfinity \<rparr>
     = ''{'' @ json_string ''c'' @ '':'' @ json_string ''-1001'' @ '','' @ json_string ''s''
         @ '':null,'' @ json_string ''e'' @ '':null}''
   \<and> link_payload \<lparr> link_chat = ''-1001'', link_start = PlusInfinity, link_end = PlusInfinity \<rparr>
     = ''eyJjIjoiLTEwMDEiLCJzIjpudWxsLCJlIjpudWxsfQ''"
proof -
  let ?id = "replicate 309 (CHR ''9'')"
  let ?url = "''https://t.me/c/1/'' @ ?id"
  have s: "CHR ''/'' \<notin> set ?id" "CHR '' '' \<notin> set ?url" by simp_all
  have parts: "split (CHR ''/'') ?url = [''https:'', [], ''t.me'', ''c'', ''1'', ?id]"
    by (simp add: split_no_sep [OF s(1)])
  have "last ?url = CHR ''9''" by simp
  then have l: "(if last ?url = CHR ''/'' then butlast ?url else ?url) = ?url" by simp
  have u: "parsePostUrl ?url = Some (''-1001'', PlusInfinity)"
    unfolding parsePostUrl_def Let_def l parts
    by (simp add: parseInt_nines last_opt_def)
  have "split (CHR '' '') ?url = [?url]" using s(2) by (rule split_no_sep)
  then have a: "link_args (''/link https://t.me/c/1/'' @ ?id) = [?url]"
    by (simp add: link_args_def)
  have r: "link_request [?url] = Some (''-1001'', PlusInfinity, PlusInfinity)"
    unfolding link_request_def list.case u by simp
  have c: "link_command True (''/link https://t.me/c/1/'' @ ?id)
     = Link \<lparr> link_chat = ''-1001'', link_start = PlusInfinity, link_end = PlusInfinity \<rparr>"
    unfolding link_command_def a r
    by (simp add: Math_min_def Math_max_def number_less_def number_minus_def Let_def)
  have n: "number_minus PlusInfinity PlusInfinity = NaN" "\<not> number_less (Finite 100) NaN"
    by (simp_all add: number_minus_def number_less_def)
  have j: "link_data \<lparr> link_chat = ''-1001'', link_start = PlusInfinity, link_end = PlusInfinity \<rparr>
     = ''{'' @ json_string ''c'' @ '':'' @ json_string ''-1001'' @ '','' @ json_string ''s''
         @ '':null,'' @ json_string ''e'' @ '':null}''"
    by (simp add: link_data_def json_number_def)
  have p: "link_payload \<lparr> link_chat = ''-1001'', link_start = PlusInfinity, link_end = PlusInfinity \<rparr>
     = ''eyJjIjoiLTEwMDEiLCJzIjpudWxsLCJlIjpudWxsfQ''"
    by code_simp
  from c n j p show ?thesis by simp
qed

section \<open>Removing what was delivered: the notice\<close>

lemma timeline_batch:
  "concat (map (timeline t) (batch_cleanup d tr sent)) =
     map (\<lambda>m. (t, DeleteMessage m)) sent @
     (case notice tr of
        None \<Rightarrow> [(t, NoticeFailed)]
      | Some n \<Rightarrow> [(t, NoticeSent n), (t + d, DeleteMessage n)])"
  by (induction sent) (auto simp: batch_cleanup_def split: option.splits)

text \<open>
  Claim C8, as amended. In each of the four delivery paths of \<open>scraper.js\<close>, once something
  was delivered, the deletions are attempted 3600 seconds later; when they are done (for
  the single file: when its deletion succeeded) and the notice is sent, that one notice is
  removed after a fixed delay of its own: 10 seconds for the single file and the stateless
  batch link, 8 seconds for the dump-channel range link, 5 seconds for the get-all batch.
\<close>

theorem notice_removed_after_fixed_delay:
  assumes "notice tr = Some n" and "sent \<noteq> []" and "deletes tr m"
  shows "schedule_timeline (sendFile_schedule tr m) =
       [(3600000, DeleteMessage m), (3600000, NoticeSent n), (3600000 + 10000, DeleteMessage n)]
     \<and> schedule_timeline (gall_schedule tr sent) =
       map (\<lambda>m. (3600000, DeleteMessage m)) sent @
       [(3600000, NoticeSent n), (3600000 + 5000, DeleteMessage n)]
     \<and> schedule_timeline (handleStatelessBatch_schedule tr sent) =
       map (\<lambda>m. (3600000, DeleteMessage m)) sent @
       [(3600000, NoticeSent n), (3600000 + 10000, DeleteMessage n)]
     \<and> schedule_timeline (handleDumpBatch_schedule tr sent) =
       map (\<lambda>m. (3600000, DeleteMessage m)) sent @
       [(3600000, NoticeSent n), (3600000 + 8000, DeleteMessage n)]"
  using assms
  by (simp add: schedule_timeline_def sendFile_schedule_def sendFile_cleanup_def
      gall_schedule_def handleStatelessBatch_schedule_def handleDumpBatch_schedule_def
      AUTO_DELETE_SECONDS_def timeline_batch)

theorem notice_removed_after_fixed_delay_witness:
  "notice \<lparr> deletes = (\<lambda>m. True), notice = Some 9 \<rparr> = Some 9
   \<and> schedule_timeline (sendFile_schedule \<lparr> deletes = (\<lambda>m. True), notice = Some 9 \<rparr> 7) =
       [(3600000, DeleteMessage 7), (3600000, NoticeSent 9), (3610000, DeleteMessage 9)]
   \<and> schedule_timeline (handleDumpBatch_schedule \<lparr> deletes = (\<lambda>m. True), notice = Some 9 \<rparr> [7, 8]) =
       [(3600000, DeleteMessage 7), (3600000, DeleteMessage 8), (3600000, NoticeSent 9), (3608000, DeleteMessage 9)]"
proof -
  have a: "notice \<lparr> deletes = (\<lambda>m. True), notice = Some 9 \<rparr> = Some 9"
    "deletes \<lparr> deletes = (\<lambda>m. True), notice = Some 9 \<rparr> 7" "[7, 8] \<noteq> ([] :: nat list)"
    by simp_all
  from notice_removed_after_fixed_delay [OF a(1) a(3) a(2)] show ?thesis by simp
qed

text \<open>The get-all batch removes its notice after 5 seconds, which is not between 8 and 10.\<close>

theorem gall_notice_delay_counterexample:
  "schedule_timeline (gall_schedule \<lparr> deletes = (\<lambda>m. True), notice = Some 9 \<rparr> [7, 8]) =
     [(3600000, DeleteMessage 7), (3600000, DeleteMessage 8), (3600000, NoticeSent 9), (3605000, DeleteMessage 9)]
   \<and> \<not> (8000 \<le> (3605000::nat) - 3600000)"
  by (simp add: schedule_timeline_def gall_schedule_def batch_cleanup_def AUTO_DELETE_SECONDS_def)

end
